theory Spec2Isabelle
  imports Complex_Main
begin

section \<open>Character-level RNN notebook: batching and sampling\<close>

text \<open>
  The notebook \<^verbatim>\<open>intro-to-rnns/Anna KaRNNa.ipynb\<close> holds four pure-Python/numpy functions
  around an opaque TensorFlow model: \<^verbatim>\<open>split_data\<close>, \<^verbatim>\<open>get_batch\<close>, \<^verbatim>\<open>pick_top_n\<close> and
  \<^verbatim>\<open>sample\<close>. They are embedded below. Conventions:
  \<^item> a Python exception is a value of type \<open>error\<close>, returned as \<open>Inl\<close>;
  \<^item> a one-dimensional numpy array is a list, a two-dimensional one is a record of its
    column count and its rows (numpy keeps the column count of an array without rows);
  \<^item> sizes (\<^verbatim>\<open>batch_size\<close>, \<^verbatim>\<open>num_steps\<close>, \<^verbatim>\<open>n_samples\<close>, \<^verbatim>\<open>vocab_size\<close>) are natural numbers;
    \<^verbatim>\<open>top_n\<close> and slice bounds are integers, since Python gives negative bounds a meaning;
  \<^item> floating-point numbers (\<^verbatim>\<open>split_frac\<close>, probabilities) are exact rationals: rounding
    is not modelled.
\<close>

datatype error = KeyError | UnboundLocalError | ValueError | ZeroDivisionError | IndexError

subsection \<open>Python slices\<close>

text \<open>A slice bound \<open>i\<close> on a sequence of length \<open>n\<close>: a negative bound counts from the
  end, and every bound is clipped to \<open>0..n\<close>.\<close>

definition norm_index :: "nat \<Rightarrow> int \<Rightarrow> nat" where
  "norm_index n i = (if i < 0 then nat (int n + i) else min n (nat i))"

text \<open>\<^verbatim>\<open>xs[:k]\<close>, \<^verbatim>\<open>xs[k:]\<close> and \<^verbatim>\<open>xs[lo:hi]\<close>.\<close>

definition slice_upto :: "int \<Rightarrow> 'a list \<Rightarrow> 'a list" where
  "slice_upto k xs = take (norm_index (length xs) k) xs"

definition slice_from :: "int \<Rightarrow> 'a list \<Rightarrow> 'a list" where
  "slice_from k xs = drop (norm_index (length xs) k) xs"

definition slice_range :: "int \<Rightarrow> int \<Rightarrow> 'a list \<Rightarrow> 'a list" where
  "slice_range lo hi xs =
     (let a = norm_index (length xs) lo; b = norm_index (length xs) hi
      in take (b - a) (drop a xs))"

subsection \<open>Two-dimensional arrays\<close>

record array2 =
  ncols :: nat
  rows :: "int list list"

definition shape :: "array2 \<Rightarrow> nat \<times> nat" where
  "shape a = (length (rows a), ncols a)"

definition wf_array2 :: "array2 \<Rightarrow> bool" where
  "wf_array2 a = list_all (\<lambda>r. length r = ncols a) (rows a)"

text \<open>\<^verbatim>\<open>a[:, :k]\<close>, \<^verbatim>\<open>a[:, k:]\<close> and \<^verbatim>\<open>a[:, lo:hi]\<close>.\<close>

definition cols_upto :: "int \<Rightarrow> array2 \<Rightarrow> array2" where
  "cols_upto k a =
     \<lparr>ncols = norm_index (ncols a) k, rows = map (slice_upto k) (rows a)\<rparr>"

definition cols_from :: "int \<Rightarrow> array2 \<Rightarrow> array2" where
  "cols_from k a =
     \<lparr>ncols = ncols a - norm_index (ncols a) k, rows = map (slice_from k) (rows a)\<rparr>"

definition cols_range :: "int \<Rightarrow> int \<Rightarrow> array2 \<Rightarrow> array2" where
  "cols_range lo hi a =
     \<lparr>ncols = norm_index (ncols a) hi - norm_index (ncols a) lo,
      rows = map (slice_range lo hi) (rows a)\<rparr>"

text \<open>\<^verbatim>\<open>np.split(ary, sections)\<close> with an integer \<open>sections\<close>: the array must divide evenly,
  otherwise numpy raises \<^verbatim>\<open>ValueError: array split does not result in an equal division\<close>.\<close>

definition np_split :: "int list \<Rightarrow> nat \<Rightarrow> error + int list list" where
  "np_split ary sections =
     (if sections = 0 then Inl ZeroDivisionError
      else if length ary mod sections \<noteq> 0 then Inl ValueError
      else Inr (map (\<lambda>i. take (length ary div sections)
                              (drop (i * (length ary div sections)) ary))
                    [0..<sections]))"

text \<open>\<^verbatim>\<open>np.stack(arrays)\<close>: at least one array, all of one length.\<close>

definition np_stack :: "int list list \<Rightarrow> error + array2" where
  "np_stack arrays =
     (case arrays of
        [] \<Rightarrow> Inl ValueError
      | a # _ \<Rightarrow>
          if list_all (\<lambda>r. length r = length a) arrays
          then Inr \<lparr>ncols = length a, rows = arrays\<rparr>
          else Inl ValueError)"

subsection \<open>\<^verbatim>\<open>split_data\<close>\<close>

text \<open>\<^verbatim>\<open>int(q)\<close> truncates towards zero.\<close>

definition py_int :: "rat \<Rightarrow> int" where
  "py_int q = (if q < 0 then - \<lfloor>- q\<rfloor> else \<lfloor>q\<rfloor>)"

text \<open>
  \<^verbatim>\<open>
  def split_data(chars, batch_size, num_steps, split_frac=0.9):
      slice_size = batch_size * num_steps
      n_batches = int(len(chars) / slice_size)
      x = chars[: n_batches*slice_size]
      y = chars[1: n_batches*slice_size + 1]
      x = np.stack(np.split(x, batch_size))
      y = np.stack(np.split(y, batch_size))
      split_idx = int(n_batches*split_frac)
      train_x, train_y= x[:, :split_idx*num_steps], y[:, :split_idx*num_steps]
      val_x, val_y = x[:, split_idx*num_steps:], y[:, split_idx*num_steps:]
      return train_x, train_y, val_x, val_y
  \<close>
  \<^verbatim>\<open>int(len(chars) / slice_size)\<close> is the integer quotient (a division by zero raises);
  \<^verbatim>\<open>int(n_batches*split_frac)\<close> is taken on the exact product.
\<close>

definition split_data ::
  "int list \<Rightarrow> nat \<Rightarrow> nat \<Rightarrow> rat \<Rightarrow> error + (array2 \<times> array2 \<times> array2 \<times> array2)" where
  "split_data chars batch_size num_steps split_frac =
     (let slice_size = batch_size * num_steps in
      if slice_size = 0 then Inl ZeroDivisionError
      else
        let n_batches = length chars div slice_size;
            x = slice_upto (int (n_batches * slice_size)) chars;
            y = slice_range 1 (int (n_batches * slice_size + 1)) chars
        in case np_split x batch_size of Inl e \<Rightarrow> Inl e | Inr xs \<Rightarrow>
          (case np_stack xs of Inl e \<Rightarrow> Inl e | Inr x2 \<Rightarrow>
          (case np_split y batch_size of Inl e \<Rightarrow> Inl e | Inr ys \<Rightarrow>
          (case np_stack ys of Inl e \<Rightarrow> Inl e | Inr y2 \<Rightarrow>
             let split_idx = py_int (of_nat n_batches * split_frac);
                 k = split_idx * int num_steps
             in Inr (cols_upto k x2, cols_upto k y2, cols_from k x2, cols_from k y2)))))"

subsection \<open>\<^verbatim>\<open>get_batch\<close>\<close>

text \<open>
  \<^verbatim>\<open>
  def get_batch(arrs, num_steps):
      batch_size, slice_size = arrs[0].shape
      n_batches = int(slice_size/num_steps)
      for b in range(n_batches):
          yield [x[:, b*num_steps: (b+1)*num_steps] for x in arrs]
  \<close>
  The generator is modelled by the list of everything it yields.
\<close>

definition get_batch :: "array2 list \<Rightarrow> nat \<Rightarrow> error + array2 list list" where
  "get_batch arrs num_steps =
     (case arrs of
        [] \<Rightarrow> Inl IndexError
      | a0 # _ \<Rightarrow>
          let slice_size = ncols a0 in
          if num_steps = 0 then Inl ZeroDivisionError
          else
            let n_batches = slice_size div num_steps
            in Inr (map (\<lambda>b. map (cols_range (int (b * num_steps))
                                               (int ((b + 1) * num_steps))) arrs)
                        [0..<n_batches]))"

text \<open>Joining arrays of \<open>nr\<close> rows along the column axis, as \<^verbatim>\<open>np.concatenate(ws, axis=1)\<close>
  does; the notebook does not call it, the statement about windows does.\<close>

definition hconcat :: "nat \<Rightarrow> array2 list \<Rightarrow> array2" where
  "hconcat nr ws =
     \<lparr>ncols = sum_list (map ncols ws),
      rows = map (\<lambda>i. concat (map (\<lambda>w. rows w ! i) ws)) [0..<nr]\<rparr>"

subsection \<open>\<^verbatim>\<open>pick_top_n\<close>\<close>

text \<open>\<^verbatim>\<open>np.argsort(p)\<close>: the indices of \<open>p\<close> in ascending order of their values. numpy's
  default sort does not promise an order among equal values; here the lower index comes
  first.\<close>

definition argsort :: "rat list \<Rightarrow> nat list" where
  "argsort p = sort_key (\<lambda>i. p ! i) [0..<length p]"

text \<open>\<^verbatim>\<open>p[idx] = 0\<close> for an array \<open>idx\<close> of indices.\<close>

definition zero_at :: "nat list \<Rightarrow> rat list \<Rightarrow> rat list" where
  "zero_at idx p = map (\<lambda>i. if i \<in> set idx then 0 else p ! i) [0..<length p]"

text \<open>\<^verbatim>\<open>p[np.argsort(p)[:-top_n]] = 0\<close>\<close>

definition zero_below_top_n :: "rat list \<Rightarrow> int \<Rightarrow> rat list" where
  "zero_below_top_n p top_n = zero_at (slice_upto (- top_n) (argsort p)) p"

text \<open>\<^verbatim>\<open>p / np.sum(p)\<close>. With a zero sum numpy does not raise: the quotient holds NaN (or
  infinite) entries. \<open>None\<close> stands for such a vector.\<close>

definition normalise :: "rat list \<Rightarrow> rat list option" where
  "normalise p = (if sum_list p = 0 then None else Some (map (\<lambda>x. x / sum_list p) p))"

text \<open>
  \<^verbatim>\<open>np.random.choice(a, 1, p=p)[0]\<close> for an integer \<open>a\<close>. numpy raises \<^verbatim>\<open>ValueError\<close> when
  \<open>a\<close> is not positive, when \<open>p\<close> has not \<open>a\<close> entries, holds NaN or a negative entry, or does
  not sum to 1. Otherwise it draws a uniform sample \<open>u\<close> from \<open>[0, 1)\<close> and returns
  \<^verbatim>\<open>p.cumsum().searchsorted(u, side='right')\<close>. The sample \<open>u\<close> is a parameter here.
\<close>

definition cumsum :: "rat list \<Rightarrow> rat list" where
  "cumsum p = map (\<lambda>k. sum_list (take (Suc k) p)) [0..<length p]"

definition searchsorted_right :: "rat list \<Rightarrow> rat \<Rightarrow> nat" where
  "searchsorted_right cdf u = length (takeWhile (\<lambda>c. c \<le> u) cdf)"

definition random_choice :: "nat \<Rightarrow> rat list option \<Rightarrow> rat \<Rightarrow> error + nat" where
  "random_choice a p u =
     (case p of
        None \<Rightarrow> Inl ValueError
      | Some q \<Rightarrow>
          if a = 0 \<or> length q \<noteq> a \<or> list_ex (\<lambda>x. x < 0) q \<or> sum_list q \<noteq> 1
          then Inl ValueError
          else Inr (searchsorted_right (cumsum q) u))"

text \<open>
  \<^verbatim>\<open>
  def pick_top_n(preds, vocab_size, top_n=5):
      p = np.squeeze(preds)
      p[np.argsort(p)[:-top_n]] = 0
      p = p / np.sum(p)
      c = np.random.choice(vocab_size, 1, p=p)[0]
      return c
  \<close>
  \<open>preds\<close> is the list of the entries of the caller's array. \<^verbatim>\<open>np.squeeze\<close> removes every axis
  of length one. On an array with exactly one entry that leaves an array without any axis,
  and the indexed assignment of the second line raises \<^verbatim>\<open>IndexError\<close> (too many indices)
  whatever the index array holds, before anything is written. On every other array it
  leaves a one-dimensional view, which shares the caller's data, so the assignment of zeros
  writes into the caller's array; the division builds a new array. The function below
  returns the caller's array as the call leaves it, and the drawn index or the exception.
  \<open>top_n_distribution\<close> is the renormalised vector of the third line, when the call gets
  that far and the vector holds numbers.
\<close>

definition top_n_distribution :: "rat list \<Rightarrow> int \<Rightarrow> rat list option" where
  "top_n_distribution preds top_n =
     (if length preds = 1 then None else normalise (zero_below_top_n preds top_n))"

definition pick_top_n :: "rat list \<Rightarrow> nat \<Rightarrow> int \<Rightarrow> rat \<Rightarrow> rat list \<times> (error + nat)" where
  "pick_top_n preds vocab_size top_n u =
     (if length preds = 1 then (preds, Inl IndexError)
      else
        let p = zero_below_top_n preds top_n;
            q = normalise p
        in (p, random_choice vocab_size q u))"

subsection \<open>\<^verbatim>\<open>sample\<close>\<close>

text \<open>The vocabulary is the notebook's global \<^verbatim>\<open>vocab = set(text)\<close>, given as the list of its
  elements in iteration order, with
  \<^verbatim>\<open>vocab_to_int = {c: i for i, c in enumerate(vocab)}\<close> and
  \<^verbatim>\<open>int_to_vocab = dict(enumerate(vocab))\<close>.\<close>

definition vocab_to_int :: "string \<Rightarrow> char \<rightharpoonup> nat" where
  "vocab_to_int vocab = map_of (zip vocab [0..<length vocab])"

definition int_to_vocab :: "string \<Rightarrow> nat \<rightharpoonup> char" where
  "int_to_vocab vocab = map_of (zip [0..<length vocab] vocab)"

text \<open>The restored TensorFlow model is opaque: its initial state, and one run of the graph
  on a character code and a state, giving the predictions and the next state.\<close>

record 's rnn =
  initial_state :: 's
  run :: "nat \<Rightarrow> 's \<Rightarrow> rat list \<times> 's"

text \<open>
  \<^verbatim>\<open>
  def sample(checkpoint, n_samples, lstm_size, vocab_size, prime="The "):
      samples = [c for c in prime]
      model = build_rnn(vocab_size, lstm_size=lstm_size, sampling=True)
      saver = tf.train.Saver()
      with tf.Session() as sess:
          saver.restore(sess, checkpoint)
          new_state = sess.run(model.initial_state)
          for c in prime:
              x = np.zeros((1, 1))
              x[0,0] = vocab_to_int[c]
              feed = {model.inputs: x, model.keep_prob: 1., model.initial_state: new_state}
              preds, new_state = sess.run([model.preds, model.final_state], feed_dict=feed)

          c = pick_top_n(preds, len(vocab))
          samples.append(int_to_vocab[c])

          for i in range(n_samples):
              x[0,0] = c
              feed = {model.inputs: x, model.keep_prob: 1., model.initial_state: new_state}
              preds, new_state = sess.run([model.preds, model.final_state], feed_dict=feed)

              c = pick_top_n(preds, len(vocab))
              samples.append(int_to_vocab[c])

      return ''.join(samples)
  \<close>
  \<^verbatim>\<open>checkpoint\<close>, \<^verbatim>\<open>lstm_size\<close> and \<^verbatim>\<open>vocab_size\<close> only build and restore the model, which is
  the parameter \<open>model\<close> here; \<^verbatim>\<open>pick_top_n\<close> is called with \<^verbatim>\<open>len(vocab)\<close> and the default
  \<^verbatim>\<open>top_n = 5\<close>. \<open>priming\<close> is the first loop. The local \<^verbatim>\<open>preds\<close> is unbound until the loop body has run
  once: it is an option. \<open>sampling\<close> is the second loop; \<open>us k\<close> is the uniform sample of
  the \<open>k\<close>-th draw.
\<close>

fun priming ::
  "'s rnn \<Rightarrow> string \<Rightarrow> string \<Rightarrow> rat list option \<Rightarrow> 's \<Rightarrow> error + (rat list option \<times> 's)" where
  "priming model vocab [] preds new_state = Inr (preds, new_state)"
| "priming model vocab (c # cs) preds new_state =
     (case vocab_to_int vocab c of
        None \<Rightarrow> Inl KeyError
      | Some x \<Rightarrow>
          (case run model x new_state of
             (preds', new_state') \<Rightarrow> priming model vocab cs (Some preds') new_state'))"

fun sampling ::
  "'s rnn \<Rightarrow> string \<Rightarrow> (nat \<Rightarrow> rat) \<Rightarrow> nat \<Rightarrow> nat \<Rightarrow> nat \<Rightarrow> 's \<Rightarrow> string \<Rightarrow> error + string" where
  "sampling model vocab us 0 k c new_state samples = Inr samples"
| "sampling model vocab us (Suc n) k c new_state samples =
     (case run model c new_state of
        (preds, new_state') \<Rightarrow>
          (case snd (pick_top_n preds (length vocab) 5 (us k)) of
             Inl e \<Rightarrow> Inl e
           | Inr c' \<Rightarrow>
               (case int_to_vocab vocab c' of
                  None \<Rightarrow> Inl KeyError
                | Some ch \<Rightarrow> sampling model vocab us n (Suc k) c' new_state' (samples @ [ch]))))"

definition sample :: "'s rnn \<Rightarrow> string \<Rightarrow> (nat \<Rightarrow> rat) \<Rightarrow> nat \<Rightarrow> string \<Rightarrow> error + string" where
  "sample model vocab us n_samples prime =
     (let samples = prime in
      case priming model vocab prime None (initial_state model) of
        Inl e \<Rightarrow> Inl e
      | Inr (preds, new_state) \<Rightarrow>
          (case preds of
             None \<Rightarrow> Inl UnboundLocalError
           | Some p \<Rightarrow>
               (case snd (pick_top_n p (length vocab) 5 (us 0)) of
                  Inl e \<Rightarrow> Inl e
                | Inr c \<Rightarrow>
                    (case int_to_vocab vocab c of
                       None \<Rightarrow> Inl KeyError
                     | Some ch \<Rightarrow>
                         sampling model vocab us n_samples 1 c new_state (samples @ [ch])))))"

subsection \<open>Vocabulary of the statements\<close>

text \<open>The number of non-zero entries of a vector, and the vectors \<^verbatim>\<open>pick_top_n\<close> is meant
  for: \<open>vocab_size\<close> entries, none negative, with a positive sum (the source's vectors sum
  to 1 up to rounding; \<^verbatim>\<open>pick_top_n\<close> renormalises in any case).\<close>

definition count_nonzero :: "rat list \<Rightarrow> nat" where
  "count_nonzero p = length (filter (\<lambda>x. x \<noteq> 0) p)"

definition probabilities :: "nat \<Rightarrow> rat list \<Rightarrow> bool" where
  "probabilities vocab_size p =
     (length p = vocab_size \<and> list_all (\<lambda>x. 0 \<le> x) p \<and> 0 < sum_list p)"

subsection \<open>Concrete collaborators for evaluation\<close>

text \<open>A model that predicts the same vector at every step, and a random source whose
  samples are all zero.\<close>

definition const_rnn :: "rat list \<Rightarrow> unit rnn" where
  "const_rnn p = \<lparr>initial_state = (), run = (\<lambda>x s. (p, s))\<rparr>"

definition zero_draws :: "nat \<Rightarrow> rat" where
  "zero_draws k = 0"

section \<open>Properties\<close>

subsection \<open>Slices and splitting\<close>

lemma norm_index_0 [simp]: "norm_index n 0 = 0"
  by (simp add: norm_index_def)

lemma np_split_Nil: "0 < k \<Longrightarrow> np_split [] k = Inr (replicate k [])"
  by (simp add: np_split_def map_replicate_const)

lemma np_stack_replicate:
  "0 < k \<Longrightarrow> np_stack (replicate k xs) = Inr \<lparr>ncols = length xs, rows = replicate k xs\<rparr>"
  by (cases k) (simp_all add: np_stack_def list_all_iff)

subsection \<open>\<^verbatim>\<open>split_data\<close> on a short corpus\<close>

text \<open>
  Claim C6. A corpus shorter than one \<open>batch_size * num_steps\<close> window makes \<open>split_data\<close>
  return, without an exception, four arrays of \<open>batch_size\<close> rows and no column.
\<close>

theorem split_data_short_corpus:
  assumes "length chars < batch_size * num_steps"
  shows "split_data chars batch_size num_steps split_frac =
           Inr (\<lparr>ncols = 0, rows = replicate batch_size []\<rparr>,
                \<lparr>ncols = 0, rows = replicate batch_size []\<rparr>,
                \<lparr>ncols = 0, rows = replicate batch_size []\<rparr>,
                \<lparr>ncols = 0, rows = replicate batch_size []\<rparr>)"
proof -
  from assms have b: "0 < batch_size"
    by (cases batch_size) simp_all
  from assms have s: "batch_size * num_steps \<noteq> 0"
    by linarith
  have n: "length chars div (batch_size * num_steps) = 0"
    using assms by simp
  have x: "slice_upto 0 chars = []"
    by (simp add: slice_upto_def)
  have y: "slice_range 1 1 chars = []"
    by (simp add: slice_range_def)
  have sp: "np_split [] batch_size = Inr (replicate batch_size [])"
    using b by (rule np_split_Nil)
  have st: "np_stack (replicate batch_size []) =
              Inr \<lparr>ncols = 0, rows = replicate batch_size []\<rparr>"
    using np_stack_replicate [OF b, of "[]"] by simp
  have k: "py_int 0 = 0"
    by (simp add: py_int_def)
  have cu: "cols_upto 0 \<lparr>ncols = 0, rows = replicate batch_size []\<rparr> =
              \<lparr>ncols = 0, rows = replicate batch_size []\<rparr>"
    by (simp add: cols_upto_def slice_upto_def)
  have cf: "cols_from 0 \<lparr>ncols = 0, rows = replicate batch_size []\<rparr> =
              \<lparr>ncols = 0, rows = replicate batch_size []\<rparr>"
    by (simp add: cols_from_def slice_from_def)
  show ?thesis
    unfolding split_data_def Let_def n
    using s by (simp add: x y sp st k cu cf)
qed

theorem split_data_short_corpus_witness:
  "length [0, 1, 2, 0, 1 :: int] < 2 * 3 \<and>
   split_data [0, 1, 2, 0, 1] 2 3 (9 / 10) =
     Inr (\<lparr>ncols = 0, rows = [[], []]\<rparr>, \<lparr>ncols = 0, rows = [[], []]\<rparr>,
          \<lparr>ncols = 0, rows = [[], []]\<rparr>, \<lparr>ncols = 0, rows = [[], []]\<rparr>)"
  using split_data_short_corpus [of "[0, 1, 2, 0, 1]" 2 3 "9 / 10"]
  by (simp add: numeral_2_eq_2)

subsection \<open>\<^verbatim>\<open>split_data\<close> on a corpus that is an exact multiple of the window\<close>

text \<open>
  Claim C2. The corpus \<^verbatim>\<open>"abcabcabcabc"\<close>, encoded with \<open>a = 0\<close>, \<open>b = 1\<close>, \<open>c = 2\<close>, has
  12 characters, two full windows of \<open>batch_size * num_steps = 6\<close>. The claim is that
  \<open>split_data\<close> returns its tensors there. The code takes \<^verbatim>\<open>y = chars[1:13]\<close>, which has
  only 11 elements, and \<^verbatim>\<open>np.split(y, 2)\<close> raises \<^verbatim>\<open>ValueError\<close>.
\<close>

theorem split_data_exact_multiple_fails:
  "split_data [0, 1, 2, 0, 1, 2, 0, 1, 2, 0, 1, 2] 2 3 (1 / 2) = Inl ValueError"
  by code_simp

subsection \<open>Errors of the sampler\<close>

lemma random_choice_error: "random_choice a p u = Inl e \<Longrightarrow> e = ValueError"
  by (auto simp: random_choice_def split: option.splits if_splits)

lemma pick_top_n_error:
  "snd (pick_top_n p v t u) = Inl e \<Longrightarrow> e = ValueError \<or> e = IndexError"
  by (auto simp: pick_top_n_def Let_def split: if_splits dest: random_choice_error)

lemma sampling_error:
  "sampling model vocab us n k c st samples = Inl e \<Longrightarrow>
   e = ValueError \<or> e = IndexError \<or> e = KeyError"
proof (induction n arbitrary: k c st samples)
  case 0
  then show ?case by simp
next
  case (Suc n)
  then show ?case
    by (auto split: prod.splits sum.splits option.splits dest: pick_top_n_error)
qed

lemma priming_Some:
  "priming model vocab cs (Some p) st = Inr (q, st') \<Longrightarrow> q \<noteq> None"
  by (induction cs arbitrary: p st) (auto split: option.splits prod.splits)

lemma priming_nonempty:
  "cs \<noteq> [] \<Longrightarrow> priming model vocab cs preds st = Inr (q, st') \<Longrightarrow> q \<noteq> None"
  by (cases cs) (auto split: option.splits prod.splits dest: priming_Some)

lemma priming_error: "priming model vocab cs preds st = Inl e \<Longrightarrow> e = KeyError"
  by (induction cs arbitrary: preds st) (auto split: option.splits prod.splits)

lemma vocab_to_int_None: "(vocab_to_int vocab c = None) = (c \<notin> set vocab)"
  by (simp add: vocab_to_int_def)

lemma dom_vocab_to_int: "dom (vocab_to_int vocab) = set vocab"
  by (simp add: vocab_to_int_def)

lemma priming_fails_iff:
  "(\<exists>e. priming model vocab cs preds st = Inl e) = (\<exists>c\<in>set cs. c \<notin> set vocab)"
  by (induction cs arbitrary: preds st)
     (auto simp: vocab_to_int_None [symmetric] split: option.splits prod.splits)

subsection \<open>The empty priming string\<close>

text \<open>
  Claim C10. With \<^verbatim>\<open>prime = ""\<close> the priming loop never binds \<^verbatim>\<open>preds\<close>, and \<open>sample\<close> stops
  at the first \<^verbatim>\<open>pick_top_n(preds, ...)\<close> with an unbound-variable error, before any
  character is generated. With a non-empty \<open>prime\<close> that error cannot happen: the loop either
  raises \<^verbatim>\<open>KeyError\<close> or binds \<^verbatim>\<open>preds\<close>.
\<close>

theorem sample_empty_prime:
  "sample model vocab us n_samples [] = Inl UnboundLocalError \<and>
   (prime \<noteq> [] \<longrightarrow> sample model vocab us n_samples prime \<noteq> Inl UnboundLocalError)"
proof
  show "sample model vocab us n_samples [] = Inl UnboundLocalError"
    by (simp add: sample_def)
next
  show "prime \<noteq> [] \<longrightarrow> sample model vocab us n_samples prime \<noteq> Inl UnboundLocalError"
  proof
    assume ne: "prime \<noteq> []"
    show "sample model vocab us n_samples prime \<noteq> Inl UnboundLocalError"
    proof
      assume f: "sample model vocab us n_samples prime = Inl UnboundLocalError"
      show False
      proof (cases "priming model vocab prime None (initial_state model)")
        case (Inl e)
        with f have "e = UnboundLocalError" by (simp add: sample_def)
        with Inl show False by (auto dest: priming_error)
      next
        case (Inr r)
        obtain q st where r: "r = (q, st)" by (cases r)
        with Inr ne obtain p where q: "q = Some p"
          by (auto dest: priming_nonempty)
        from f Inr r q show False
          by (auto simp: sample_def split: sum.splits option.splits
                   dest: pick_top_n_error sampling_error)
      qed
    qed
  qed
qed

theorem sample_empty_prime_witness:
  "sample (const_rnn [1 / 2, 1 / 2]) ''ab'' zero_draws 2 [] = Inl UnboundLocalError \<and>
   ''a'' \<noteq> [] \<and>
   sample (const_rnn [1 / 2, 1 / 2]) ''ab'' zero_draws 2 ''a'' \<noteq> Inl UnboundLocalError"
  using sample_empty_prime [of "const_rnn [1 / 2, 1 / 2]" "''ab''" zero_draws 2 "''a''"]
  by simp

subsection \<open>Characters outside the vocabulary\<close>

text \<open>
  Claim C7. The priming loop fails, with Python's \<^verbatim>\<open>KeyError\<close> from \<^verbatim>\<open>vocab_to_int[c]\<close>,
  exactly when some character of \<open>prime\<close> is not a key of \<open>vocab_to_int\<close>; it succeeds
  exactly when all of them are keys. \<open>sample\<close> has no handler, so the caller gets the
  \<^verbatim>\<open>KeyError\<close>.
\<close>

theorem priming_unknown_character:
  "(priming model vocab prime None (initial_state model) = Inl KeyError)
     = (\<exists>c\<in>set prime. c \<notin> dom (vocab_to_int vocab)) \<and>
   ((\<exists>r. priming model vocab prime None (initial_state model) = Inr r)
     = (\<forall>c\<in>set prime. c \<in> dom (vocab_to_int vocab))) \<and>
   ((\<exists>c\<in>set prime. c \<notin> dom (vocab_to_int vocab))
     \<longrightarrow> sample model vocab us n_samples prime = Inl KeyError)"
proof -
  let ?r = "priming model vocab prime None (initial_state model)"
  have a: "(?r = Inl KeyError) = (\<exists>c\<in>set prime. c \<notin> set vocab)"
    using priming_fails_iff [of model vocab prime None "initial_state model"]
    by (auto dest: priming_error)
  have b: "(\<exists>r. ?r = Inr r) = (\<not> (\<exists>e. ?r = Inl e))"
    by (cases ?r) auto
  have c: "?r = Inl KeyError \<Longrightarrow> sample model vocab us n_samples prime = Inl KeyError"
    by (simp add: sample_def)
  show ?thesis
    using a b c priming_fails_iff [of model vocab prime None "initial_state model"]
    by (simp add: dom_vocab_to_int)
qed

theorem priming_unknown_character_witness:
  "(priming (const_rnn [1 / 2, 1 / 2]) ''ab'' ''ac'' None () = Inl KeyError) \<and>
   CHR ''c'' \<in> set ''ac'' \<and> CHR ''c'' \<notin> dom (vocab_to_int ''ab'') \<and>
   sample (const_rnn [1 / 2, 1 / 2]) ''ab'' zero_draws 2 ''ac'' = Inl KeyError \<and>
   (\<exists>r. priming (const_rnn [1 / 2, 1 / 2]) ''ab'' ''ab'' None () = Inr r)"
  using priming_unknown_character [of "const_rnn [1 / 2, 1 / 2]" "''ab''" "''ac''" zero_draws 2]
    priming_unknown_character [of "const_rnn [1 / 2, 1 / 2]" "''ab''" "''ab''" zero_draws 2]
  by (simp add: const_rnn_def dom_vocab_to_int)

subsection \<open>The shift between inputs and targets\<close>

lemma np_split_InrD:
  assumes "np_split ary k = Inr rs"
  shows "0 < k" and "length ary mod k = 0"
    and "rs = map (\<lambda>i. take (length ary div k) (drop (i * (length ary div k)) ary)) [0..<k]"
  using assms by (auto simp: np_split_def split: if_splits)

lemma section_bound:
  fixes i k m :: nat
  assumes "i < k"
  shows "i * m + m \<le> k * m"
proof -
  from assms have "Suc i \<le> k" by simp
  then have "Suc i * m \<le> k * m" by (rule mult_le_mono1)
  then show ?thesis by (simp add: add.commute)
qed

lemma np_split_length_row:
  assumes "np_split ary k = Inr rs" and "i < k"
  shows "length (rs ! i) = length ary div k"
proof -
  let ?m = "length ary div k"
  from assms(1) have len: "k * ?m = length ary"
    using np_split_InrD(2) [OF assms(1)] by (simp add: mod_eq_0_iff_dvd)
  have "i * ?m + ?m \<le> length ary"
    using section_bound [OF assms(2), of ?m] len by simp
  then show ?thesis
    using assms(2) by (simp add: np_split_InrD(3) [OF assms(1)])
qed

lemma np_split_nth:
  assumes "np_split ary k = Inr rs" and "i < k" and "j < length ary div k"
  shows "rs ! i ! j = ary ! (i * (length ary div k) + j)"
proof -
  let ?m = "length ary div k"
  from assms(1) have len: "k * ?m = length ary"
    using np_split_InrD(2) [OF assms(1)] by (simp add: mod_eq_0_iff_dvd)
  have "i * ?m + ?m \<le> length ary"
    using section_bound [OF assms(2), of ?m] len by simp
  then have "i * ?m \<le> length ary" by simp
  then show ?thesis
    using assms(2,3) by (simp add: np_split_InrD(3) [OF assms(1)])
qed

lemma np_stack_InrD:
  assumes "np_stack rs = Inr a"
  shows "rows a = rs" and "rs \<noteq> []" and "ncols a = length (hd rs)"
  using assms by (auto simp: np_stack_def split: list.splits if_splits)

lemma split_data_InrE:
  assumes "split_data chars b s f = Inr (tx, ty, vx, vy)"
  obtains xs ys x2 y2 where
    "b * s \<noteq> 0"
    and "np_split (slice_upto (int (length chars div (b * s) * (b * s))) chars) b = Inr xs"
    and "np_stack xs = Inr x2"
    and "np_split (slice_range 1 (int (length chars div (b * s) * (b * s) + 1)) chars) b = Inr ys"
    and "np_stack ys = Inr y2"
    and "tx = cols_upto (py_int (of_nat (length chars div (b * s)) * f) * int s) x2"
    and "ty = cols_upto (py_int (of_nat (length chars div (b * s)) * f) * int s) y2"
    and "vx = cols_from (py_int (of_nat (length chars div (b * s)) * f) * int s) x2"
    and "vy = cols_from (py_int (of_nat (length chars div (b * s)) * f) * int s) y2"
  using assms
  by (auto simp: split_data_def Let_def split: if_splits sum.splits)
lemma slice_upto_nat: "slice_upto (int k) xs = take k xs"
  by (simp add: slice_upto_def norm_index_def min_def)

lemma slice_from_nat: "slice_from (int k) xs = drop k xs"
  by (simp add: slice_from_def norm_index_def min_def)

lemma slice_range_1: "slice_range 1 (int (Suc N)) xs = take N (drop 1 xs)"
proof (cases xs)
  case Nil
  then show ?thesis by (simp add: slice_range_def)
next
  case (Cons x xs')
  have "nat (1 + int N) = Suc N" by simp
  with Cons show ?thesis by (simp add: slice_range_def norm_index_def min_def)
qed

lemma py_int_nonneg: "0 \<le> q \<Longrightarrow> 0 \<le> py_int q"
  by (simp add: py_int_def)

lemma split_rows_shift:
  assumes x: "np_split (take N chars) b = Inr xs"
    and y: "np_split (take N (drop 1 chars)) b = Inr ys"
    and N: "N \<le> length chars"
    and i: "i < b"
    and jx: "Suc j < N div b"
    and jy: "j < length (take N (drop 1 chars)) div b"
  shows "ys ! i ! j = xs ! i ! Suc j"
proof -
  let ?m = "N div b"
  let ?ly = "length (take N (drop 1 chars))"
  let ?my = "?ly div b"
  have lx: "length (take N chars) = N"
    using N by simp
  have bN: "b * ?m = N"
    using np_split_InrD(2) [OF x] lx by (simp add: mod_eq_0_iff_dvd)
  have bly: "b * ?my = ?ly"
    using np_split_InrD(2) [OF y] by (simp add: mod_eq_0_iff_dvd)
  have xi: "xs ! i ! Suc j = take N chars ! (i * ?m + Suc j)"
    using np_split_nth [OF x i, of "Suc j"] jx lx by simp
  have yi: "ys ! i ! j = take N (drop 1 chars) ! (i * ?my + j)"
    using np_split_nth [OF y i jy] by simp
  have bx: "i * ?m + Suc j < N"
    using section_bound [OF i, of ?m] jx bN by simp
  have "i * ?my + j < ?ly"
    using section_bound [OF i, of ?my] jy bly by simp
  then have by': "i * ?my + j < N" and ne: "1 \<le> length chars"
    by (simp, cases chars, simp_all)
  have eq: "i * ?my = i * ?m"
  proof (cases "?ly = N")
    case True
    then show ?thesis by simp
  next
    case False
    then have l: "?ly = N - 1" and pos: "0 < N"
      using N jx by (auto simp: min_def split: if_splits)
    have d1: "b dvd N"
      using dvd_triv_left [of b ?m] bN by simp
    have "b dvd ?ly"
      using np_split_InrD(2) [OF y] by (simp only: mod_eq_0_iff_dvd)
    then have d2: "b dvd N - 1"
      by (simp only: l)
    have "b dvd N - (N - 1)"
      using d1 d2 by (rule dvd_diff_nat)
    moreover have "N - (N - 1) = 1"
      using pos by simp
    ultimately have "b = 1" by simp
    with i show ?thesis by simp
  qed
  have "take N (drop 1 chars) ! (i * ?my + j) = chars ! Suc (i * ?my + j)"
    using by' ne by simp
  then have "ys ! i ! j = chars ! Suc (i * ?m + j)"
    using yi by (simp only: eq)
  moreover have "xs ! i ! Suc j = chars ! Suc (i * ?m + j)"
    using xi bx by simp
  ultimately show ?thesis by simp
qed
lemma target_cols:
  assumes x: "np_split (take N chars) b = Inr xs"
    and y: "np_split (take N (drop 1 chars)) b = Inr ys"
    and N: "N \<le> length chars"
  shows "length (take N (drop 1 chars)) div b = N div b \<or>
         (b = 1 \<and> Suc (length (take N (drop 1 chars))) = N)"
proof (cases "length (take N (drop 1 chars)) = N")
  case True
  then show ?thesis by simp
next
  case False
  let ?ly = "length (take N (drop 1 chars))"
  from False have l: "?ly = N - 1" and pos: "0 < N"
    using N by (auto simp: min_def split: if_splits)
  have "length (take N chars) = N"
    using N by simp
  then have d1: "b dvd N"
    using np_split_InrD(2) [OF x] by (simp only: mod_eq_0_iff_dvd)
  have "b dvd ?ly"
    using np_split_InrD(2) [OF y] by (simp only: mod_eq_0_iff_dvd)
  then have d2: "b dvd N - 1"
    by (simp only: l)
  have "b dvd N - (N - 1)"
    using d1 d2 by (rule dvd_diff_nat)
  moreover have "N - (N - 1) = 1"
    using pos by simp
  ultimately have b1: "b = 1" by simp
  have "Suc (N - 1) = N"
    using pos by simp
  then have "Suc ?ly = N"
    by (simp only: l)
  with b1 show ?thesis by blast
qed

lemma slice_upto_nonneg: "0 \<le> k \<Longrightarrow> slice_upto k xs = take (nat k) xs"
  using slice_upto_nat [of "nat k" xs] by simp

lemma slice_from_nonneg: "0 \<le> k \<Longrightarrow> slice_from k xs = drop (nat k) xs"
  using slice_from_nat [of "nat k" xs] by simp

lemma cols_upto_nonneg:
  "0 \<le> k \<Longrightarrow>
   cols_upto k a = \<lparr>ncols = min (ncols a) (nat k), rows = map (take (nat k)) (rows a)\<rparr>"
  by (simp add: cols_upto_def norm_index_def slice_upto_nonneg)

lemma cols_from_nonneg:
  "0 \<le> k \<Longrightarrow>
   cols_from k a = \<lparr>ncols = ncols a - nat k, rows = map (drop (nat k)) (rows a)\<rparr>"
  by (simp add: cols_from_def norm_index_def slice_from_nonneg min_def)

text \<open>
  Claim C4. Whenever \<open>split_data\<close> returns, for every row \<open>i\<close> and every column \<open>j\<close> such
  that \<open>j\<close> and \<open>j + 1\<close> are columns of the same returned input tensor, the target at
  \<open>(i, j)\<close> is the input at \<open>(i, j + 1)\<close>: in the training pair and in the validation pair.
  Across the split, the last training target of a row is the first validation input of
  that row. \<open>split_frac\<close> is not negative, as the operation requires.
\<close>

theorem split_data_shift:
  assumes sd: "split_data chars batch_size num_steps split_frac =
                 Inr (train_x, train_y, val_x, val_y)"
    and f: "0 \<le> split_frac"
    and i: "i < batch_size"
  shows "(Suc j < ncols train_x \<longrightarrow>
            j < ncols train_y \<and> rows train_y ! i ! j = rows train_x ! i ! Suc j) \<and>
         (Suc j < ncols val_x \<longrightarrow>
            j < ncols val_y \<and> rows val_y ! i ! j = rows val_x ! i ! Suc j) \<and>
         (0 < ncols train_x \<and> 0 < ncols val_x \<longrightarrow>
            ncols train_x - 1 < ncols train_y \<and>
            rows train_y ! i ! (ncols train_x - 1) = rows val_x ! i ! 0)"
proof -
  let ?n = "length chars div (batch_size * num_steps)"
  let ?N = "?n * (batch_size * num_steps)"
  let ?k = "py_int (of_nat ?n * split_frac) * int num_steps"
  let ?K = "nat ?k"
  let ?y = "take ?N (drop 1 chars)"
  let ?m = "?N div batch_size"
  let ?my = "length ?y div batch_size"
  from sd obtain xs ys x2 y2 where
    x0: "np_split (slice_upto (int ?N) chars) batch_size = Inr xs"
    and x2: "np_stack xs = Inr x2"
    and y0: "np_split (slice_range 1 (int (?N + 1)) chars) batch_size = Inr ys"
    and y2: "np_stack ys = Inr y2"
    and tx: "train_x = cols_upto ?k x2" and ty: "train_y = cols_upto ?k y2"
    and vx: "val_x = cols_from ?k x2" and vy: "val_y = cols_from ?k y2"
    by (rule split_data_InrE)
  have N: "?N \<le> length chars"
    by simp
  have x: "np_split (take ?N chars) batch_size = Inr xs"
    using x0 by (simp only: slice_upto_nat)
  have y: "np_split ?y batch_size = Inr ys"
    using y0 slice_range_1 [of ?N chars] by simp
  have k: "0 \<le> ?k"
    using f by (simp add: py_int_nonneg)
  have lenx: "length (take ?N chars) = ?N"
    using N by simp
  have rx: "rows x2 = xs" and ry: "rows y2 = ys"
    using np_stack_InrD(1) [OF x2] np_stack_InrD(1) [OF y2] by simp_all
  have lxs: "length xs = batch_size" and lys: "length ys = batch_size"
    using np_split_InrD(3) [OF x] np_split_InrD(3) [OF y] by simp_all
  have lxi: "length (xs ! i) = ?m"
    using np_split_length_row [OF x i] lenx by simp
  have lyi: "length (ys ! i) = ?my"
    using np_split_length_row [OF y i] by simp
  have b0: "0 < batch_size"
    using i by simp
  have cx: "ncols x2 = ?m"
    using np_stack_InrD(2,3) [OF x2] np_split_length_row [OF x b0] lenx
    by (simp add: hd_conv_nth)
  have cy: "ncols y2 = ?my"
    using np_stack_InrD(2,3) [OF y2] np_split_length_row [OF y b0]
    by (simp add: hd_conv_nth)
  have cols: "?my = ?m \<or> (batch_size = 1 \<and> Suc (length ?y) = ?N)"
    using target_cols [OF x y N] .
  then have my: "?m \<le> Suc ?my"
    by auto
  have shift: "Suc j' < ?m \<Longrightarrow> ys ! i ! j' = xs ! i ! Suc j'" for j'
    using split_rows_shift [OF x y N i, of j'] my by simp
  have train: "Suc j < ncols train_x \<longrightarrow>
      j < ncols train_y \<and> rows train_y ! i ! j = rows train_x ! i ! Suc j"
  proof
    assume a: "Suc j < ncols train_x"
    then have j1: "Suc j < ?m" and j2: "Suc j < ?K"
      using tx cx by (simp_all add: cols_upto_nonneg [OF k])
    have "j < ncols train_y"
      using j1 j2 my by (simp add: ty cy cols_upto_nonneg [OF k])
    moreover have "rows train_y ! i ! j = rows train_x ! i ! Suc j"
      using j2 i shift [OF j1]
      by (simp add: tx ty rx ry lxs lys cols_upto_nonneg [OF k])
    ultimately show "j < ncols train_y \<and> rows train_y ! i ! j = rows train_x ! i ! Suc j"
      by simp
  qed
  have val: "Suc j < ncols val_x \<longrightarrow>
      j < ncols val_y \<and> rows val_y ! i ! j = rows val_x ! i ! Suc j"
  proof
    assume a: "Suc j < ncols val_x"
    then have j1: "Suc (?K + j) < ?m"
      using vx cx by (simp add: cols_from_nonneg [OF k])
    then have j3: "?K + j < ?my"
      using my by simp
    have "j < ncols val_y"
      using j3 by (simp add: vy cy cols_from_nonneg [OF k])
    moreover have "rows val_y ! i ! j = rows val_x ! i ! Suc j"
      using j1 j3 i shift [OF j1] lxi lyi
      by (simp add: vx vy rx ry lxs lys cols_from_nonneg [OF k])
    ultimately show "j < ncols val_y \<and> rows val_y ! i ! j = rows val_x ! i ! Suc j"
      by simp
  qed
  have edge: "0 < ncols train_x \<and> 0 < ncols val_x \<longrightarrow>
      ncols train_x - 1 < ncols train_y \<and>
      rows train_y ! i ! (ncols train_x - 1) = rows val_x ! i ! 0"
  proof
    assume a: "0 < ncols train_x \<and> 0 < ncols val_x"
    then have K0: "0 < ?K" and Km: "?K < ?m"
      using tx vx cx by (simp_all add: cols_upto_nonneg [OF k] cols_from_nonneg [OF k])
    then have ct: "ncols train_x = ?K"
      using tx cx by (simp add: cols_upto_nonneg [OF k])
    from K0 have sk: "Suc (?K - 1) = ?K"
      by simp
    from Km my have Ky: "?K \<le> ?my"
      by simp
    have s: "ys ! i ! (?K - 1) = xs ! i ! ?K"
      using shift [of "?K - 1"] Km by (simp only: sk)
    have "ncols train_x - 1 < ncols train_y"
      using K0 Ky by (simp add: ct ty cy cols_upto_nonneg [OF k])
    moreover have "rows train_y ! i ! (?K - 1) = ys ! i ! (?K - 1)"
      using K0 i by (simp add: ty ry lys cols_upto_nonneg [OF k])
    moreover have "rows val_x ! i ! 0 = xs ! i ! ?K"
      using Km i lxi by (simp add: vx rx lxs cols_from_nonneg [OF k])
    ultimately show "ncols train_x - 1 < ncols train_y \<and>
      rows train_y ! i ! (ncols train_x - 1) = rows val_x ! i ! 0"
      using s by (simp only: ct)
  qed
  from train val edge show ?thesis by simp
qed

theorem split_data_shift_witness:
  "split_data [0, 1, 2, 0, 1, 2, 0, 1, 2, 0, 1, 2, 7] 2 3 (1 / 2) =
     Inr (\<lparr>ncols = 3, rows = [[0, 1, 2], [0, 1, 2]]\<rparr>,
          \<lparr>ncols = 3, rows = [[1, 2, 0], [1, 2, 0]]\<rparr>,
          \<lparr>ncols = 3, rows = [[0, 1, 2], [0, 1, 2]]\<rparr>,
          \<lparr>ncols = 3, rows = [[1, 2, 0], [1, 2, 7]]\<rparr>) \<and>
   (0 :: rat) \<le> 1 / 2 \<and> (1 :: nat) < 2 \<and>
   Suc 1 < ncols \<lparr>ncols = 3, rows = [[0, 1, 2], [0, 1, 2 :: int]]\<rparr> \<and>
   [[1, 2, 0], [1, 2, 7 :: int]] ! 1 ! 1 = [[0, 1, 2], [0, 1, 2]] ! 1 ! Suc 1"
proof -
  have sd: "split_data [0, 1, 2, 0, 1, 2, 0, 1, 2, 0, 1, 2, 7] 2 3 (1 / 2) =
     Inr (\<lparr>ncols = 3, rows = [[0, 1, 2], [0, 1, 2]]\<rparr>,
          \<lparr>ncols = 3, rows = [[1, 2, 0], [1, 2, 0]]\<rparr>,
          \<lparr>ncols = 3, rows = [[0, 1, 2], [0, 1, 2]]\<rparr>,
          \<lparr>ncols = 3, rows = [[1, 2, 0], [1, 2, 7]]\<rparr>)"
    by code_simp
  have f: "(0 :: rat) \<le> 1 / 2" by simp
  have i: "(1 :: nat) < 2" by simp
  show ?thesis
    using sd split_data_shift [OF sd f i, of 1] by simp
qed

subsection \<open>Windows of \<^verbatim>\<open>get_batch\<close>\<close>

lemma norm_index_nat: "norm_index n (int k) = min n k"
  by (simp add: norm_index_def)

lemma slice_range_nat:
  "lo \<le> hi \<Longrightarrow> hi \<le> length xs \<Longrightarrow>
   slice_range (int lo) (int hi) xs = take (hi - lo) (drop lo xs)"
  by (simp add: slice_range_def norm_index_def min_def)

lemma window_cols:
  assumes wf: "wf_array2 a" and b: "Suc b * S \<le> ncols a"
  shows "cols_range (int (b * S)) (int ((b + 1) * S)) a =
           \<lparr>ncols = S, rows = map (\<lambda>r. take S (drop (b * S) r)) (rows a)\<rparr>"
proof -
  have le: "b * S \<le> Suc b * S" by simp
  have "slice_range (int (b * S)) (int (Suc b * S)) r = take S (drop (b * S) r)"
    if "r \<in> set (rows a)" for r
  proof -
    from that wf have "length r = ncols a"
      by (simp add: wf_array2_def list_all_iff)
    with b have "Suc b * S \<le> length r" by simp
    from slice_range_nat [OF le this] show ?thesis by simp
  qed
  then have "map (slice_range (int (b * S)) (int (Suc b * S))) (rows a) =
             map (\<lambda>r. take S (drop (b * S) r)) (rows a)"
    by simp
  moreover have "min (ncols a) (Suc b * S) - min (ncols a) (b * S) = S"
    using b by (simp add: min_def)
  then have "norm_index (ncols a) (int (Suc b * S)) - norm_index (ncols a) (int (b * S)) = S"
    by (simp only: norm_index_nat)
  ultimately show ?thesis
    by (simp add: cols_range_def)
qed

lemma concat_windows:
  "concat (map (\<lambda>b. take S (drop (b * S) r)) [0..<n]) = take (n * S) r"
proof (induction n)
  case 0
  then show ?case by simp
next
  case (Suc n)
  have "take (n * S + S) r = take (n * S) r @ take S (drop (n * S) r)"
    by (rule take_add)
  with Suc show ?case by (simp add: add.commute)
qed

lemma sum_list_const: "sum_list (map (\<lambda>b. S) [0..<n]) = n * (S :: nat)"
  by (induction n) simp_all
lemma map_nth_fun: "map (\<lambda>i. f (xs ! i)) [0..<length xs] = map f xs"
  by (rule nth_equalityI) simp_all

lemma hconcat_windows:
  assumes "n * S \<le> ncols a"
  shows "hconcat (length (rows a))
           (map (\<lambda>b. \<lparr>ncols = S, rows = map (\<lambda>r. take S (drop (b * S) r)) (rows a)\<rparr>) [0..<n])
         = cols_upto (int (n * S)) a"
proof -
  let ?W = "map (\<lambda>b. \<lparr>ncols = S, rows = map (\<lambda>r. take S (drop (b * S) r)) (rows a)\<rparr>) [0..<n]"
  have r: "map (\<lambda>i. concat (map (\<lambda>w. rows w ! i) ?W)) [0..<length (rows a)] =
           map (take (n * S)) (rows a)"
  proof (rule nth_equalityI)
    show "length (map (\<lambda>i. concat (map (\<lambda>w. rows w ! i) ?W)) [0..<length (rows a)]) =
          length (map (take (n * S)) (rows a))"
      by simp
  next
    fix i
    assume "i < length (map (\<lambda>i. concat (map (\<lambda>w. rows w ! i) ?W)) [0..<length (rows a)])"
    then have i: "i < length (rows a)" by simp
    have "map (\<lambda>w. rows w ! i) ?W = map (\<lambda>b. take S (drop (b * S) (rows a ! i))) [0..<n]"
      using i by (simp add: comp_def)
    then have "concat (map (\<lambda>w. rows w ! i) ?W) = take (n * S) (rows a ! i)"
      by (simp only: concat_windows)
    then show "map (\<lambda>i. concat (map (\<lambda>w. rows w ! i) ?W)) [0..<length (rows a)] ! i =
               map (take (n * S)) (rows a) ! i"
      using i by simp
  qed
  have c: "sum_list (map ncols ?W) = n * S"
    by (simp add: comp_def sum_list_const)
  have m: "min (ncols a) (n * S) = n * S"
    using assms by simp
  have "slice_upto (int (n * S)) = (take (n * S) :: int list \<Rightarrow> int list)"
    by (rule ext) (rule slice_upto_nat)
  then have s: "map (slice_upto (int (n * S))) (rows a) = map (take (n * S)) (rows a)"
    by (simp only:)
  have "cols_upto (int (n * S)) a = \<lparr>ncols = n * S, rows = map (take (n * S)) (rows a)\<rparr>"
    by (simp only: cols_upto_def norm_index_nat m s)
  moreover have "hconcat (length (rows a)) ?W =
                 \<lparr>ncols = n * S, rows = map (take (n * S)) (rows a)\<rparr>"
    by (simp only: hconcat_def r c)
  ultimately show ?thesis by simp
qed

text \<open>
  Claim C5. For two well-formed arrays \<open>x\<close> and \<open>y\<close> of one shape, with \<open>C\<close> columns, and a
  step \<open>S \<ge> 1\<close>, \<open>get_batch\<close> yields exactly \<open>C div S\<close> windows; each window holds one array
  of shape \<open>(batch_size, S)\<close> per input; window \<open>b\<close> holds the columns \<open>b * S, ..., b * S + S - 1\<close>
  of its input, so the windows do not overlap and come from left to right; and joining the
  windows along the column axis gives back the first \<open>(C div S) * S\<close> columns of the input.
\<close>

theorem get_batch_windows:
  assumes wx: "wf_array2 x" and wy: "wf_array2 y" and sh: "shape x = shape y"
    and S: "1 \<le> S"
  shows "\<exists>ws. get_batch [x, y] S = Inr ws \<and>
           length ws = ncols x div S \<and>
           (\<forall>w\<in>set ws. length w = 2 \<and>
               shape (w ! 0) = (length (rows x), S) \<and> wf_array2 (w ! 0) \<and>
               shape (w ! 1) = (length (rows x), S) \<and> wf_array2 (w ! 1)) \<and>
           (\<forall>b<ncols x div S. \<forall>i<length (rows x). \<forall>j<S.
               rows (ws ! b ! 0) ! i ! j = rows x ! i ! (b * S + j) \<and>
               rows (ws ! b ! 1) ! i ! j = rows y ! i ! (b * S + j)) \<and>
           hconcat (length (rows x)) (map (\<lambda>w. w ! 0) ws) =
             cols_upto (int (ncols x div S * S)) x \<and>
           hconcat (length (rows x)) (map (\<lambda>w. w ! 1) ws) =
             cols_upto (int (ncols x div S * S)) y"
proof -
  let ?n = "ncols x div S"
  let ?win = "\<lambda>a b. \<lparr>ncols = S, rows = map (\<lambda>r. take S (drop (b * S) r)) (rows a)\<rparr>"
  let ?ws = "map (\<lambda>b. [?win x b, ?win y b]) [0..<?n]"
  from sh have ry: "length (rows y) = length (rows x)" and cy: "ncols y = ncols x"
    by (simp_all add: shape_def)
  have nS: "?n * S \<le> ncols x"
    by simp
  have bS: "Suc b * S \<le> ncols x" if "b < ?n" for b
  proof -
    from that have "Suc b \<le> ?n" by simp
    then have "Suc b * S \<le> ?n * S" by (rule mult_le_mono1)
    from this nS show ?thesis by (rule le_trans)
  qed
  have lenx: "length r = ncols x" if "r \<in> set (rows x)" for r
    using wx that by (simp add: wf_array2_def list_all_iff)
  have leny: "length r = ncols x" if "r \<in> set (rows y)" for r
    using wy that cy by (simp add: wf_array2_def list_all_iff)
  have "map (\<lambda>b. map (cols_range (int (b * S)) (int ((b + 1) * S))) [x, y]) [0..<?n] = ?ws"
  proof (rule map_cong [OF refl])
    fix b assume "b \<in> set [0..<?n]"
    then have b: "Suc b * S \<le> ncols x" using bS by simp
    then have b': "Suc b * S \<le> ncols y" using cy by simp
    show "map (cols_range (int (b * S)) (int ((b + 1) * S))) [x, y] = [?win x b, ?win y b]"
      by (simp only: list.map window_cols [OF wx b] window_cols [OF wy b'])
  qed
  then have g: "get_batch [x, y] S = Inr ?ws"
    using S by (simp add: get_batch_def Let_def del: of_nat_mult of_nat_add)
  have l: "length ?ws = ?n"
    by simp
  have shp: "\<forall>w\<in>set ?ws. length w = 2 \<and>
               shape (w ! 0) = (length (rows x), S) \<and> wf_array2 (w ! 0) \<and>
               shape (w ! 1) = (length (rows x), S) \<and> wf_array2 (w ! 1)"
  proof
    fix w assume "w \<in> set ?ws"
    then obtain b where b: "b < ?n" and w: "w = [?win x b, ?win y b]"
      by auto
    have "min S (ncols x - b * S) = S"
      using bS [OF b] by simp
    then show "length w = 2 \<and>
               shape (w ! 0) = (length (rows x), S) \<and> wf_array2 (w ! 0) \<and>
               shape (w ! 1) = (length (rows x), S) \<and> wf_array2 (w ! 1)"
      using lenx leny by (simp add: w shape_def ry wf_array2_def list_all_iff)
  qed
  have el: "\<forall>b<?n. \<forall>i<length (rows x). \<forall>j<S.
               rows (?ws ! b ! 0) ! i ! j = rows x ! i ! (b * S + j) \<and>
               rows (?ws ! b ! 1) ! i ! j = rows y ! i ! (b * S + j)"
  proof (intro allI impI)
    fix b i j assume b: "b < ?n" and i: "i < length (rows x)" and j: "j < S"
    have "b * S \<le> ncols x"
      using bS [OF b] by simp
    moreover have "length (rows x ! i) = ncols x"
      using lenx i by simp
    moreover have "length (rows y ! i) = ncols x"
      using leny i ry by simp
    ultimately show "rows (?ws ! b ! 0) ! i ! j = rows x ! i ! (b * S + j) \<and>
               rows (?ws ! b ! 1) ! i ! j = rows y ! i ! (b * S + j)"
      using b i j ry by simp
  qed
  have hx: "hconcat (length (rows x)) (map (\<lambda>w. w ! 0) ?ws) = cols_upto (int (?n * S)) x"
    using hconcat_windows [OF nS] by (simp add: comp_def del: of_nat_mult)
  have nSy: "?n * S \<le> ncols y"
    using cy by simp
  have hy: "hconcat (length (rows x)) (map (\<lambda>w. w ! 1) ?ws) = cols_upto (int (?n * S)) y"
    using hconcat_windows [OF nSy] by (simp add: comp_def ry del: of_nat_mult)
  from g l shp el hx hy show ?thesis
    by blast
qed
theorem get_batch_windows_witness:
  "wf_array2 \<lparr>ncols = 5, rows = [[1, 2, 3, 4, 5], [6, 7, 8, 9, 10]]\<rparr> \<and>
   wf_array2 \<lparr>ncols = 5, rows = [[2, 3, 4, 5, 6], [7, 8, 9, 10, 11]]\<rparr> \<and>
   shape \<lparr>ncols = 5, rows = [[1, 2, 3, 4, 5], [6, 7, 8, 9, 10]]\<rparr> =
     shape \<lparr>ncols = 5, rows = [[2, 3, 4, 5, 6], [7, 8, 9, 10, 11]]\<rparr> \<and>
   (1 :: nat) \<le> 2 \<and>
   (\<exists>ws. get_batch [\<lparr>ncols = 5, rows = [[1, 2, 3, 4, 5], [6, 7, 8, 9, 10]]\<rparr>,
                     \<lparr>ncols = 5, rows = [[2, 3, 4, 5, 6], [7, 8, 9, 10, 11]]\<rparr>] 2 = Inr ws \<and>
         length ws = 2 \<and>
         hconcat 2 (map (\<lambda>w. w ! 0) ws) =
           \<lparr>ncols = 4, rows = [[1, 2, 3, 4], [6, 7, 8, 9]]\<rparr>)"
proof -
  let ?x = "\<lparr>ncols = 5, rows = [[1, 2, 3, 4, 5], [6, 7, 8, 9, 10]]\<rparr>"
  let ?y = "\<lparr>ncols = 5, rows = [[2, 3, 4, 5, 6], [7, 8, 9, 10, 11]]\<rparr>"
  have wx: "wf_array2 ?x" by (simp add: wf_array2_def)
  have wy: "wf_array2 ?y" by (simp add: wf_array2_def)
  have sh: "shape ?x = shape ?y" by (simp add: shape_def)
  have S: "(1 :: nat) \<le> 2" by simp
  have c: "cols_upto 4 ?x = \<lparr>ncols = 4, rows = [[1, 2, 3, 4], [6, 7, 8, 9]]\<rparr>"
    by (simp add: cols_upto_def slice_upto_def norm_index_def)
  have n: "ncols ?x div 2 = 2" by simp
  have r: "length (rows ?x) = 2" by simp
  have k: "int (ncols ?x div 2 * 2) = 4" by simp
  from get_batch_windows [OF wx wy sh S] obtain ws where
    g: "get_batch [?x, ?y] 2 = Inr ws" and l: "length ws = ncols ?x div 2"
    and h: "hconcat (length (rows ?x)) (map (\<lambda>w. w ! 0) ws) =
           cols_upto (int (ncols ?x div 2 * 2)) ?x"
    by blast
  from l have l2: "length ws = 2"
    by (simp only: n)
  from h have "hconcat 2 (map (\<lambda>w. w ! 0) ws) = cols_upto 4 ?x"
    by (simp only: r k)
  then have h2: "hconcat 2 (map (\<lambda>w. w ! 0) ws) =
                   \<lparr>ncols = 4, rows = [[1, 2, 3, 4], [6, 7, 8, 9]]\<rparr>"
    by (simp only: c)
  from g l2 h2 have "\<exists>ws. get_batch [?x, ?y] 2 = Inr ws \<and> length ws = 2 \<and>
         hconcat 2 (map (\<lambda>w. w ! 0) ws) = \<lparr>ncols = 4, rows = [[1, 2, 3, 4], [6, 7, 8, 9]]\<rparr>"
    by blast
  with wx wy sh S show ?thesis by (simp only: simp_thms)
qed

subsection \<open>Sorting indices and zeroing entries\<close>

lemma length_argsort [simp]: "length (argsort p) = length p"
  by (simp add: argsort_def)

lemma set_argsort [simp]: "set (argsort p) = {0..<length p}"
  by (simp add: argsort_def)

lemma distinct_argsort [simp]: "distinct (argsort p)"
  by (simp add: argsort_def)

lemma sorted_argsort: "sorted (map (\<lambda>i. p ! i) (argsort p))"
  by (simp add: argsort_def)

lemma length_zero_at [simp]: "length (zero_at idx p) = length p"
  by (simp add: zero_at_def)

lemma nth_zero_at:
  "i < length p \<Longrightarrow> zero_at idx p ! i = (if i \<in> set idx then 0 else p ! i)"
  by (simp add: zero_at_def)

lemma zero_at_Nil [simp]: "zero_at [] p = p"
  by (simp add: zero_at_def map_nth)

lemma length_zero_below_top_n [simp]: "length (zero_below_top_n p top_n) = length p"
  by (simp add: zero_below_top_n_def)

lemma length_filter_perm:
  assumes "distinct xs" and "distinct ys" and "set xs = set ys"
  shows "length (filter P xs) = length (filter P ys)"
  using assms by (simp add: distinct_length_filter)

text \<open>In an ascending list without negative entries the non-zero entries are at the end.\<close>

lemma nonzero_drop_sorted:
  fixes vs :: "rat list"
  assumes "sorted vs" and "\<forall>x\<in>set vs. 0 \<le> x"
  shows "length (filter (\<lambda>x. x \<noteq> 0) (drop k vs)) =
         min (length vs - k) (length (filter (\<lambda>x. x \<noteq> 0) vs))"
  using assms
proof (induction vs arbitrary: k)
  case Nil
  then show ?case by simp
next
  case (Cons v vs)
  show ?case
  proof (cases k)
    case 0
    have "length (filter (\<lambda>x. x \<noteq> 0) (v # vs)) \<le> length (v # vs)"
      by (rule length_filter_le)
    with 0 show ?thesis by (simp add: min_def)
  next
    case (Suc k')
    from Cons.prems have s: "sorted vs" and nn: "\<forall>x\<in>set vs. 0 \<le> x"
      by simp_all
    have ih: "length (filter (\<lambda>x. x \<noteq> 0) (drop k' vs)) =
              min (length vs - k') (length (filter (\<lambda>x. x \<noteq> 0) vs))"
      using Cons.IH [OF s nn] .
    show ?thesis
    proof (cases "v = 0")
      case True
      with Suc ih show ?thesis by simp
    next
      case False
      with Cons.prems have "0 < v" by simp
      with Cons.prems have "\<forall>x\<in>set vs. x \<noteq> 0" by fastforce
      then have "filter (\<lambda>x. x \<noteq> 0) vs = vs" by simp
      with Suc ih False show ?thesis by simp
    qed
  qed
qed
lemma nonzero_zero_at:
  "length (filter (\<lambda>x. x \<noteq> 0) (zero_at (take k (argsort p)) p)) =
   length (filter (\<lambda>i. p ! i \<noteq> 0) (drop k (argsort p)))"
proof -
  let ?idx = "argsort p"
  let ?P = "\<lambda>i. i \<notin> set (take k ?idx) \<and> p ! i \<noteq> 0"
  have "distinct (take k ?idx @ drop k ?idx)"
    by simp
  then have disj: "set (take k ?idx) \<inter> set (drop k ?idx) = {}"
    by (simp only: distinct_append)
  have "length (filter (\<lambda>x. x \<noteq> 0) (zero_at (take k ?idx) p)) =
        length (filter ?P [0..<length p])"
    by (simp add: zero_at_def comp_def cong: conj_cong)
  also have "\<dots> = length (filter ?P ?idx)"
    by (rule length_filter_perm) simp_all
  also have "filter ?P ?idx = filter ?P (take k ?idx) @ filter ?P (drop k ?idx)"
    by (simp only: filter_append [symmetric] append_take_drop_id)
  also have "filter ?P (take k ?idx) = []"
    by simp
  also have "filter ?P (drop k ?idx) = filter (\<lambda>i. p ! i \<noteq> 0) (drop k ?idx)"
    using disj by (intro filter_cong refl) auto
  finally show ?thesis by simp
qed

lemma nonzero_argsort:
  "length (filter (\<lambda>x. x \<noteq> 0) (map (\<lambda>i. p ! i) (argsort p))) =
   length (filter (\<lambda>x. x \<noteq> (0 :: rat)) p)"
proof -
  have "length (filter (\<lambda>x. x \<noteq> 0) (map (\<lambda>i. p ! i) (argsort p))) =
        length (filter (\<lambda>i. p ! i \<noteq> 0) (argsort p))"
    by (simp add: comp_def)
  also have "\<dots> = length (filter (\<lambda>i. p ! i \<noteq> 0) [0..<length p])"
    by (rule length_filter_perm) simp_all
  also have "\<dots> = length (filter (\<lambda>x. x \<noteq> 0) (map (\<lambda>i. p ! i) [0..<length p]))"
    by (simp add: comp_def)
  finally show ?thesis by (simp only: map_nth)
qed

lemma nonzero_count_top:
  assumes "\<forall>x\<in>set p. (0 :: rat) \<le> x"
  shows "length (filter (\<lambda>x. x \<noteq> 0) (zero_at (take k (argsort p)) p)) =
         min (length p - k) (length (filter (\<lambda>x. x \<noteq> 0) p))"
proof -
  let ?vs = "map (\<lambda>i. p ! i) (argsort p)"
  have nn: "\<forall>x\<in>set ?vs. 0 \<le> x"
    using assms by simp
  have "length (filter (\<lambda>x. x \<noteq> 0) (zero_at (take k (argsort p)) p)) =
        length (filter (\<lambda>x. x \<noteq> 0) (drop k ?vs))"
    by (simp add: nonzero_zero_at drop_map comp_def)
  also have "\<dots> = min (length ?vs - k) (length (filter (\<lambda>x. x \<noteq> 0) ?vs))"
    using sorted_argsort nn by (rule nonzero_drop_sorted)
  finally show ?thesis
    by (simp only: nonzero_argsort length_map length_argsort)
qed

lemma slice_upto_neg:
  "0 < t \<Longrightarrow> slice_upto (- t) xs = take (length xs - nat t) xs"
  by (simp add: slice_upto_def norm_index_def nat_diff_distrib')

lemma zero_below_top_n_pos:
  "1 \<le> top_n \<Longrightarrow>
   zero_below_top_n p top_n = zero_at (take (length p - nat top_n) (argsort p)) p"
  by (simp add: zero_below_top_n_def slice_upto_neg)

lemma nonzero_zero_below_top_n:
  assumes "\<forall>x\<in>set p. (0 :: rat) \<le> x" and "1 \<le> top_n"
  shows "length (filter (\<lambda>x. x \<noteq> 0) (zero_below_top_n p top_n)) =
         min (nat top_n) (length (filter (\<lambda>x. x \<noteq> 0) p))"
proof -
  have aux: "c \<le> n \<Longrightarrow> min (n - (n - t)) c = min t c" for n t c :: nat
    by arith
  have "length (filter (\<lambda>x. x \<noteq> 0) p) \<le> length p"
    by (rule length_filter_le)
  then have "min (length p - (length p - nat top_n)) (length (filter (\<lambda>x. x \<noteq> 0) p)) =
             min (nat top_n) (length (filter (\<lambda>x. x \<noteq> 0) p))"
    by (rule aux)
  then show ?thesis
    using nonzero_count_top [OF assms(1), of "length p - nat top_n"] assms(2)
    by (simp only: zero_below_top_n_pos)
qed

subsection \<open>Renormalising and drawing\<close>

lemma zero_at_nonneg:
  assumes "\<forall>x\<in>set p. (0 :: rat) \<le> x"
  shows "\<forall>x\<in>set (zero_at idx p). 0 \<le> x"
  using assms by (auto simp: zero_at_def)

lemma sum_list_pos_iff:
  fixes xs :: "rat list"
  assumes "\<forall>x\<in>set xs. 0 \<le> x"
  shows "(0 < sum_list xs) = (0 < length (filter (\<lambda>x. x \<noteq> 0) xs))"
  using assms
proof (induction xs)
  case Nil
  then show ?case by simp
next
  case (Cons x xs)
  then have x: "0 \<le> x" and s: "0 \<le> sum_list xs"
    by (simp_all add: sum_list_nonneg)
  from Cons have ih: "(0 < sum_list xs) = (0 < length (filter (\<lambda>x. x \<noteq> 0) xs))"
    by simp
  show ?case
  proof (cases "x = 0")
    case True
    with ih show ?thesis by simp
  next
    case False
    with x have "0 < x" by simp
    with s have "0 < x + sum_list xs" by simp
    with False show ?thesis by simp
  qed
qed

lemma sum_list_divide:
  fixes xs :: "rat list"
  shows "sum_list (map (\<lambda>x. x / c) xs) = sum_list xs / c"
  by (induction xs) (simp_all add: add_divide_distrib)

lemma normalise_Some:
  assumes "sum_list p \<noteq> 0"
  shows "normalise p = Some (map (\<lambda>x. x / sum_list p) p)"
    and "sum_list (map (\<lambda>x. x / sum_list p) p) = 1"
  using assms by (simp_all add: normalise_def sum_list_divide)

lemma nonzero_divide:
  fixes p :: "rat list"
  assumes "c \<noteq> 0"
  shows "length (filter (\<lambda>x. x \<noteq> 0) (map (\<lambda>x. x / c) p)) = length (filter (\<lambda>x. x \<noteq> 0) p)"
  using assms by (simp add: comp_def)

lemma length_cumsum [simp]: "length (cumsum q) = length q"
  by (simp add: cumsum_def)

lemma nth_cumsum: "k < length q \<Longrightarrow> cumsum q ! k = sum_list (take (Suc k) q)"
  by (simp add: cumsum_def)

lemma cumsum_step:
  "Suc k < length q \<Longrightarrow> cumsum q ! Suc k = cumsum q ! k + q ! Suc k"
  by (simp add: nth_cumsum take_Suc_conv_app_nth [of "Suc k"])

text \<open>A draw with \<open>u\<close> in \<open>[0, 1)\<close> from a distribution lands on an index of positive
  probability.\<close>

lemma searchsorted_cumsum:
  assumes nn: "\<forall>x\<in>set q. 0 \<le> x" and one: "sum_list q = 1"
    and u0: "0 \<le> u" and u1: "u < 1"
  shows "searchsorted_right (cumsum q) u < length q"
    and "0 < q ! searchsorted_right (cumsum q) u"
proof -
  let ?cdf = "cumsum q"
  let ?c = "length (takeWhile (\<lambda>c. c \<le> u) ?cdf)"
  from one have ne: "q \<noteq> []" by auto
  then have last: "?cdf ! (length q - 1) = 1"
    using one by (simp add: nth_cumsum)
  have "takeWhile (\<lambda>c. c \<le> u) ?cdf \<noteq> ?cdf"
  proof
    assume "takeWhile (\<lambda>c. c \<le> u) ?cdf = ?cdf"
    then have "\<forall>c\<in>set ?cdf. c \<le> u"
      by (simp only: takeWhile_eq_all_conv)
    moreover have "?cdf ! (length q - 1) \<in> set ?cdf"
      using ne by (intro nth_mem) simp
    ultimately have "?cdf ! (length q - 1) \<le> u" by blast
    with last u1 show False by simp
  qed
  moreover have "?c \<le> length ?cdf"
    by (rule length_takeWhile_le)
  ultimately have lt: "?c < length ?cdf"
    by (metis le_neq_implies_less takeWhile_eq_take take_all order_refl)
  then show c: "searchsorted_right ?cdf u < length q"
    by (simp add: searchsorted_right_def)
  from lt have gt: "u < ?cdf ! ?c"
    using nth_length_takeWhile [of "\<lambda>c. c \<le> u" ?cdf] by simp
  have "0 < q ! ?c"
  proof (cases ?c)
    case 0
    with gt lt u0 show ?thesis
      by (simp add: nth_cumsum take_Suc_conv_app_nth)
  next
    case (Suc k)
    then have k: "k < ?c" by simp
    then have "takeWhile (\<lambda>c. c \<le> u) ?cdf ! k \<in> set (takeWhile (\<lambda>c. c \<le> u) ?cdf)"
      by (rule nth_mem)
    then have "takeWhile (\<lambda>c. c \<le> u) ?cdf ! k \<le> u"
      by (rule set_takeWhileD [THEN conjunct2])
    moreover have "takeWhile (\<lambda>c. c \<le> u) ?cdf ! k = ?cdf ! k"
      using k by (rule takeWhile_nth)
    ultimately have le: "?cdf ! k \<le> u" by simp
    from lt Suc have "Suc k < length q" by simp
    then have "?cdf ! Suc k = ?cdf ! k + q ! Suc k"
      by (rule cumsum_step)
    with gt le Suc show ?thesis by simp
  qed
  then show "0 < q ! searchsorted_right ?cdf u"
    by (simp add: searchsorted_right_def)
qed
lemma sum_list_filter_pos:
  fixes q :: "rat list"
  assumes "\<forall>x\<in>set q. 0 \<le> x"
  shows "sum_list (filter (\<lambda>x. 0 < x) q) = sum_list q"
  using assms
proof (induction q)
  case Nil
  then show ?case by simp
next
  case (Cons x q)
  then have "0 \<le> x" by simp
  then have "\<not> 0 < x \<Longrightarrow> x = 0" by simp
  with Cons show ?case by auto
qed

lemma zero_below_top_n_all:
  assumes "int (length p) \<le> top_n"
  shows "zero_below_top_n p top_n = p"
proof (cases "1 \<le> top_n")
  case True
  from assms have "length p - nat top_n = 0" by simp
  with True show ?thesis by (simp add: zero_below_top_n_pos)
next
  case False
  with assms have "int (length p) \<le> 0" by linarith
  then have pe: "p = []" by simp
  with assms have "0 \<le> top_n" by simp
  with False have "top_n = 0" by linarith
  with pe show ?thesis by (simp add: zero_below_top_n_def zero_at_def)
qed

text \<open>A vector with one entry never gets to a draw.\<close>

lemma pick_top_n_one_entry:
  "length preds = 1 \<Longrightarrow> pick_top_n preds v top_n u = (preds, Inl IndexError)"
  by (simp add: pick_top_n_def)

text \<open>On a vector of at least two probabilities, with \<open>top_n \<ge> 1\<close> and a sample \<open>u\<close> in
  \<open>[0, 1)\<close>, \<^verbatim>\<open>pick_top_n\<close> returns an index.\<close>

lemma pick_top_n_ok:
  assumes pr: "probabilities v preds" and v2: "2 \<le> v" and t: "1 \<le> top_n"
    and u0: "0 \<le> u" and u1: "u < 1"
  shows "\<exists>q c. top_n_distribution preds top_n = Some q \<and>
           length q = v \<and> (\<forall>x\<in>set q. 0 \<le> x) \<and> sum_list q = 1 \<and>
           count_nonzero q = min (nat top_n) (count_nonzero preds) \<and>
           snd (pick_top_n preds v top_n u) = Inr c \<and> c < v \<and> 0 < q ! c"
proof -
  let ?p = "zero_below_top_n preds top_n"
  let ?s = "sum_list ?p"
  let ?q = "map (\<lambda>x. x / ?s) ?p"
  let ?c = "searchsorted_right (cumsum ?q) u"
  from pr have len: "length preds = v" and nn: "\<forall>x\<in>set preds. 0 \<le> x"
    and pos: "0 < sum_list preds"
    by (simp_all add: probabilities_def list_all_iff)
  have nnp: "\<forall>x\<in>set ?p. 0 \<le> x"
    using nn by (simp add: zero_below_top_n_def zero_at_nonneg)
  have cnt: "count_nonzero ?p = min (nat top_n) (count_nonzero preds)"
    using nonzero_zero_below_top_n [OF nn t] by (simp add: count_nonzero_def)
  have "0 < count_nonzero preds"
    using sum_list_pos_iff [OF nn] pos by (simp add: count_nonzero_def)
  with cnt t have "0 < count_nonzero ?p" by simp
  then have s: "0 < ?s"
    using sum_list_pos_iff [OF nnp] by (simp add: count_nonzero_def)
  then have s0: "?s \<noteq> 0" by simp
  from len v2 have l1: "length preds \<noteq> 1"
    by simp
  have d: "top_n_distribution preds top_n = Some ?q"
    using normalise_Some(1) [OF s0] l1 by (simp add: top_n_distribution_def)
  have one: "sum_list ?q = 1"
    using normalise_Some(2) [OF s0] .
  have lq: "length ?q = v"
    using len by simp
  have nnq: "\<forall>x\<in>set ?q. 0 \<le> x"
    using nnp s by auto
  have cq: "count_nonzero ?q = min (nat top_n) (count_nonzero preds)"
    using nonzero_divide [OF s0, of ?p] cnt by (simp add: count_nonzero_def)
  have c: "?c < length ?q" and qc: "0 < ?q ! ?c"
    using searchsorted_cumsum [OF nnq one u0 u1] by simp_all
  have v0: "v \<noteq> 0"
    using pos len by auto
  have ex: "\<not> list_ex (\<lambda>x. x < 0) ?q"
    using nnq by (auto simp: list_ex_iff)
  have "random_choice v (Some ?q) u = Inr ?c"
    using v0 lq ex one by (simp add: random_choice_def)
  then have r: "snd (pick_top_n preds v top_n u) = Inr ?c"
    using normalise_Some(1) [OF s0] l1 by (simp add: pick_top_n_def Let_def)
  from c lq have cv: "?c < v" by simp
  from d lq nnq one cq r cv qc show ?thesis by blast
qed

subsection \<open>The distribution after zeroing and renormalising\<close>

text \<open>
  Claim C3 says that the renormalised distribution has exactly \<open>min (top_n, vocab_size)\<close>
  non-zero entries. An input entry that is already zero stays zero: on \<open>[1, 0, 0]\<close> with
  \<open>top_n = 2\<close> the distribution is \<open>[1, 0, 0]\<close>, with one non-zero entry, not two.
\<close>

theorem pick_top_n_zero_entry_counterexample:
  "probabilities 3 [1, 0, 0] \<and> sum_list [1, 0, 0 :: rat] = 1 \<and>
   top_n_distribution [1, 0, 0] 2 = Some [1, 0, 0] \<and>
   count_nonzero [1, 0, 0] \<noteq> min 2 3"
  by code_simp

text \<open>
  Claim C3, amended. For a vector of \<open>vocab_size \<ge> 2\<close> probabilities, \<open>top_n \<ge> 1\<close> and
  a sample \<open>u\<close> in \<open>[0, 1)\<close>: the renormalised distribution has exactly
  \<open>min (top_n, k)\<close> non-zero entries, where \<open>k\<close> is the number of non-zero entries of the
  input; that is at most \<open>min (top_n, vocab_size)\<close>, and equal to it when no input entry is
  zero. With \<open>top_n \<ge> vocab_size\<close> nothing is zeroed. The strictly positive entries sum
  to 1, and the returned index is below \<open>vocab_size\<close> and one of the non-zero entries.
  On a vector with a single probability the call raises \<^verbatim>\<open>IndexError\<close> and builds no
  distribution.
\<close>

theorem pick_top_n_distribution:
  assumes pr: "probabilities vocab_size preds" and t: "1 \<le> top_n"
    and u0: "0 \<le> u" and u1: "u < 1"
  shows "(2 \<le> vocab_size \<longrightarrow>
          (\<exists>q c. top_n_distribution preds top_n = Some q \<and>
           count_nonzero q = min (nat top_n) (count_nonzero preds) \<and>
           count_nonzero q \<le> min (nat top_n) vocab_size \<and>
           (count_nonzero preds = vocab_size \<longrightarrow>
              count_nonzero q = min (nat top_n) vocab_size) \<and>
           (int vocab_size \<le> top_n \<longrightarrow> zero_below_top_n preds top_n = preds) \<and>
           sum_list (filter (\<lambda>x. 0 < x) q) = 1 \<and>
           snd (pick_top_n preds vocab_size top_n u) = Inr c \<and> c < vocab_size \<and>
           q ! c \<noteq> 0)) \<and>
         (vocab_size = 1 \<longrightarrow>
           top_n_distribution preds top_n = None \<and>
           pick_top_n preds vocab_size top_n u = (preds, Inl IndexError))"
proof (intro conjI impI)
  from pr have len: "length preds = vocab_size"
    by (simp add: probabilities_def)
  {
    assume "vocab_size = 1"
    with len show "top_n_distribution preds top_n = None"
      by (simp add: top_n_distribution_def)
  next
    assume "vocab_size = 1"
    with len show "pick_top_n preds vocab_size top_n u = (preds, Inl IndexError)"
      by (simp add: pick_top_n_one_entry)
  }
  assume v2: "2 \<le> vocab_size"
  from pick_top_n_ok [OF pr v2 t u0 u1] obtain q c where
    d: "top_n_distribution preds top_n = Some q"
    and nn: "\<forall>x\<in>set q. 0 \<le> x" and one: "sum_list q = 1"
    and cnt: "count_nonzero q = min (nat top_n) (count_nonzero preds)"
    and r: "snd (pick_top_n preds vocab_size top_n u) = Inr c"
    and c: "c < vocab_size" and qc: "0 < q ! c"
    by blast
  have "count_nonzero preds \<le> length preds"
    by (simp add: count_nonzero_def)
  with len cnt have le: "count_nonzero q \<le> min (nat top_n) vocab_size"
    by simp
  have eq: "count_nonzero preds = vocab_size \<longrightarrow> count_nonzero q = min (nat top_n) vocab_size"
    using cnt by simp
  have all: "int vocab_size \<le> top_n \<longrightarrow> zero_below_top_n preds top_n = preds"
    using len zero_below_top_n_all [of preds top_n] by simp
  have pos: "sum_list (filter (\<lambda>x. 0 < x) q) = 1"
    using sum_list_filter_pos [OF nn] one by simp
  from qc have "q ! c \<noteq> 0" by simp
  with d cnt le eq all pos r c
  show "\<exists>q c. top_n_distribution preds top_n = Some q \<and>
           count_nonzero q = min (nat top_n) (count_nonzero preds) \<and>
           count_nonzero q \<le> min (nat top_n) vocab_size \<and>
           (count_nonzero preds = vocab_size \<longrightarrow>
              count_nonzero q = min (nat top_n) vocab_size) \<and>
           (int vocab_size \<le> top_n \<longrightarrow> zero_below_top_n preds top_n = preds) \<and>
           sum_list (filter (\<lambda>x. 0 < x) q) = 1 \<and>
           snd (pick_top_n preds vocab_size top_n u) = Inr c \<and> c < vocab_size \<and>
           q ! c \<noteq> 0"
    by blast
qed

theorem pick_top_n_distribution_witness:
  "probabilities 5 [1 / 10, 1 / 20, 6 / 10, 1 / 20, 2 / 10] \<and> (2 :: nat) \<le> 5 \<and>
   (1 :: int) \<le> 2 \<and> (0 :: rat) \<le> 3 / 4 \<and> (3 / 4 :: rat) < 1 \<and>
   top_n_distribution [1 / 10, 1 / 20, 6 / 10, 1 / 20, 2 / 10] 2 =
     Some [0, 0, 3 / 4, 0, 1 / 4] \<and>
   count_nonzero [0, 0, 3 / 4, 0, 1 / 4] = 2 \<and>
   snd (pick_top_n [1 / 10, 1 / 20, 6 / 10, 1 / 20, 2 / 10] 5 2 (3 / 4)) = Inr 4"
proof -
  let ?p = "[1 / 10, 1 / 20, 6 / 10, 1 / 20, 2 / 10 :: rat]"
  have pr: "probabilities 5 ?p" by code_simp
  have t: "(1 :: int) \<le> 2" by simp
  have u0: "(0 :: rat) \<le> 3 / 4" by simp
  have u1: "(3 / 4 :: rat) < 1" by simp
  have d: "top_n_distribution ?p 2 = Some [0, 0, 3 / 4, 0, 1 / 4]" by code_simp
  have n: "count_nonzero [0, 0, 3 / 4, 0, 1 / 4] = 2" by code_simp
  have r: "snd (pick_top_n ?p 5 2 (3 / 4)) = Inr 4" by code_simp
  from pick_top_n_distribution [OF pr t u0 u1] pr d n r show ?thesis
    by simp
qed

subsection \<open>\<^verbatim>\<open>top_n\<close> outside \<open>1..vocab_size\<close>\<close>

lemma zero_at_all:
  assumes "set idx = {0..<length p}"
  shows "zero_at idx p = replicate (length p) 0"
  using assms by (intro nth_equalityI) (simp_all add: nth_zero_at)

lemma pick_top_n_cong:
  "zero_below_top_n p t = zero_below_top_n p t' \<Longrightarrow> pick_top_n p v t u = pick_top_n p v t' u"
  by (simp add: pick_top_n_def)

lemma zero_below_top_n_wrap:
  assumes "- int (length p) < t" and "t \<le> 0"
  shows "zero_below_top_n p t = zero_below_top_n p (int (length p) + t)"
proof -
  have "norm_index (length p) (- t) = nat (- t)"
    using assms by (simp add: norm_index_def)
  moreover have "norm_index (length p) (- (int (length p) + t)) = nat (- t)"
    using assms by (simp add: norm_index_def)
  ultimately show ?thesis
    by (simp add: zero_below_top_n_def slice_upto_def)
qed

lemma zero_below_top_n_none:
  assumes "t \<le> - int (length p)"
  shows "zero_below_top_n p t = replicate (length p) 0"
proof -
  have "norm_index (length p) (- t) = length p"
    using assms by (simp add: norm_index_def)
  then have "slice_upto (- t) (argsort p) = argsort p"
    by (simp add: slice_upto_def)
  then show ?thesis
    by (simp add: zero_below_top_n_def zero_at_all)
qed

text \<open>
  Claim C8 says that a \<open>top_n\<close> that is not positive, or larger than the vocabulary, is
  either rejected or clamped, the same way for all such calls. \<^verbatim>\<open>pick_top_n\<close> does not check
  \<open>top_n\<close>. On two probabilities, \<open>top_n = -2\<close> ends in \<^verbatim>\<open>ValueError\<close>; on three probabilities
  \<open>top_n = 0\<close> and \<open>top_n = 4\<close> are accepted, and with \<open>top_n = 0\<close> the draw can return the
  index of the smallest probability, which clamping to 1 would exclude.
\<close>

theorem pick_top_n_invalid_top_n_counterexample:
  "snd (pick_top_n [1 / 2, 1 / 2] 2 (- 2) 0) = Inl ValueError \<and>
   snd (pick_top_n [1 / 6, 1 / 3, 1 / 2] 3 0 0) = Inr 0 \<and>
   snd (pick_top_n [1 / 6, 1 / 3, 1 / 2] 3 4 0) = Inr 0 \<and>
   snd (pick_top_n [1 / 6, 1 / 3, 1 / 2] 3 1 0) = Inr 2"
  by code_simp

text \<open>
  Claim C8, amended. \<^verbatim>\<open>pick_top_n\<close> on \<open>vocab_size\<close> predictions treats \<open>top_n\<close> as the
  Python slice \<^verbatim>\<open>[:-top_n]\<close> does: a \<open>top_n\<close> larger than \<open>vocab_size\<close> behaves as
  \<open>vocab_size\<close>; a \<open>top_n\<close> with \<open>- vocab_size < top_n \<le> 0\<close> behaves as
  \<open>vocab_size + top_n\<close> (so \<open>top_n = 0\<close> behaves as \<open>vocab_size\<close>); and, unless there is
  exactly one prediction, a \<open>top_n \<le> - vocab_size\<close> zeroes every entry of the caller's
  array, after which the draw raises \<^verbatim>\<open>ValueError\<close>. On exactly one prediction every call,
  whatever \<open>top_n\<close>, raises \<^verbatim>\<open>IndexError\<close> and leaves the array as it was.
\<close>

theorem pick_top_n_invalid_top_n:
  assumes len: "length preds = vocab_size"
  shows "(int vocab_size < top_n \<longrightarrow>
            pick_top_n preds vocab_size top_n u =
            pick_top_n preds vocab_size (int vocab_size) u) \<and>
         (- int vocab_size < top_n \<and> top_n \<le> 0 \<longrightarrow>
            pick_top_n preds vocab_size top_n u =
            pick_top_n preds vocab_size (int vocab_size + top_n) u) \<and>
         (vocab_size \<noteq> 1 \<and> top_n \<le> - int vocab_size \<longrightarrow>
            pick_top_n preds vocab_size top_n u = (replicate vocab_size 0, Inl ValueError)) \<and>
         (vocab_size = 1 \<longrightarrow>
            pick_top_n preds vocab_size top_n u = (preds, Inl IndexError))"
proof (intro conjI impI)
  assume "int vocab_size < top_n"
  then have "zero_below_top_n preds top_n = preds"
    using len by (simp add: zero_below_top_n_all)
  moreover have "zero_below_top_n preds (int vocab_size) = preds"
    using len by (simp add: zero_below_top_n_all)
  ultimately show "pick_top_n preds vocab_size top_n u =
                   pick_top_n preds vocab_size (int vocab_size) u"
    by (simp add: pick_top_n_cong)
next
  assume "- int vocab_size < top_n \<and> top_n \<le> 0"
  then have "zero_below_top_n preds top_n = zero_below_top_n preds (int vocab_size + top_n)"
    using len zero_below_top_n_wrap [of preds top_n] by simp
  then show "pick_top_n preds vocab_size top_n u =
             pick_top_n preds vocab_size (int vocab_size + top_n) u"
    by (rule pick_top_n_cong)
next
  assume a: "vocab_size \<noteq> 1 \<and> top_n \<le> - int vocab_size"
  then have "zero_below_top_n preds top_n = replicate vocab_size 0"
    using len zero_below_top_n_none [of top_n preds] by simp
  moreover from a len have "length preds \<noteq> 1"
    by simp
  ultimately show "pick_top_n preds vocab_size top_n u =
                   (replicate vocab_size 0, Inl ValueError)"
    by (simp add: pick_top_n_def normalise_def random_choice_def Let_def sum_list_replicate)
next
  assume "vocab_size = 1"
  with len show "pick_top_n preds vocab_size top_n u = (preds, Inl IndexError)"
    by (simp add: pick_top_n_one_entry)
qed

theorem pick_top_n_invalid_top_n_witness:
  "length [1 / 6, 1 / 3, 1 / 2 :: rat] = 3 \<and>
   int 3 < 4 \<and>
   pick_top_n [1 / 6, 1 / 3, 1 / 2] 3 4 0 = pick_top_n [1 / 6, 1 / 3, 1 / 2] 3 (int 3) 0 \<and>
   - int 3 < - 1 \<and> (- 1 :: int) \<le> 0 \<and>
   pick_top_n [1 / 6, 1 / 3, 1 / 2] 3 (- 1) 0 =
     pick_top_n [1 / 6, 1 / 3, 1 / 2] 3 (int 3 + - 1) 0 \<and>
   (3 :: nat) \<noteq> 1 \<and> - 3 \<le> - int 3 \<and>
   pick_top_n [1 / 6, 1 / 3, 1 / 2] 3 (- 3) 0 = (replicate 3 0, Inl ValueError) \<and>
   length [1 :: rat] = 1 \<and>
   pick_top_n [1] 1 (- 1) 0 = ([1], Inl IndexError)"
proof -
  have len: "length [1 / 6, 1 / 3, 1 / 2 :: rat] = 3" by simp
  have len1: "length [1 :: rat] = 1" by simp
  show ?thesis
    using pick_top_n_invalid_top_n [OF len, of 4 0]
      pick_top_n_invalid_top_n [OF len, of "- 1" 0]
      pick_top_n_invalid_top_n [OF len, of "- 3" 0]
      pick_top_n_invalid_top_n [OF len1, of "- 1" 0]
    by simp
qed

subsection \<open>The caller's array after \<^verbatim>\<open>pick_top_n\<close>\<close>

lemma take_or_drop:
  "i \<in> set xs \<Longrightarrow> i \<notin> set (drop k xs) \<Longrightarrow> i \<in> set (take k xs)"
proof -
  assume "i \<in> set xs" and d: "i \<notin> set (drop k xs)"
  then have "i \<in> set (take k xs @ drop k xs)"
    by (simp only: append_take_drop_id)
  then have "i \<in> set (take k xs) \<or> i \<in> set (drop k xs)"
    by (simp only: set_append Un_iff)
  with d show ?thesis by blast
qed

lemma take_not_drop:
  "distinct xs \<Longrightarrow> i \<in> set (take k xs) \<Longrightarrow> i \<notin> set (drop k xs)"
proof -
  assume "distinct xs" and t: "i \<in> set (take k xs)"
  then have "distinct (take k xs @ drop k xs)"
    by (simp only: append_take_drop_id)
  then have "set (take k xs) \<inter> set (drop k xs) = {}"
    by (simp only: distinct_append)
  with t show ?thesis by blast
qed

lemma kept_indices:
  fixes p :: "rat list" and k :: nat
  defines "K \<equiv> set (drop k (argsort p))"
  shows "K \<subseteq> {0..<length p}"
    and "card K = length p - k"
    and "\<forall>i\<in>K. \<forall>j\<in>{0..<length p} - K. p ! j \<le> p ! i"
    and "zero_at (take k (argsort p)) p =
         map (\<lambda>i. if i \<in> K then p ! i else 0) [0..<length p]"
proof -
  let ?idx = "argsort p"
  have "set (drop k ?idx) \<subseteq> set ?idx"
    by (rule set_drop_subset)
  then show "K \<subseteq> {0..<length p}"
    by (simp add: K_def)
  have "card K = length (drop k ?idx)"
    unfolding K_def by (rule distinct_card) simp
  then show "card K = length p - k"
    by simp
  have "sorted (map (\<lambda>i. p ! i) (take k ?idx) @ map (\<lambda>i. p ! i) (drop k ?idx))"
    using sorted_argsort [of p]
    by (simp only: map_append [symmetric] append_take_drop_id)
  then have "\<forall>x\<in>set (map (\<lambda>i. p ! i) (take k ?idx)).
               \<forall>y\<in>set (map (\<lambda>i. p ! i) (drop k ?idx)). x \<le> y"
    by (simp only: sorted_append) (elim conjE)
  then have ord: "j \<in> set (take k ?idx) \<Longrightarrow> i \<in> set (drop k ?idx) \<Longrightarrow> p ! j \<le> p ! i"
    for i j
    by simp
  show "\<forall>i\<in>K. \<forall>j\<in>{0..<length p} - K. p ! j \<le> p ! i"
  proof (intro ballI)
    fix i j assume i: "i \<in> K" and j: "j \<in> {0..<length p} - K"
    from j have "j \<in> set ?idx" and "j \<notin> set (drop k ?idx)"
      by (simp_all add: K_def)
    then have "j \<in> set (take k ?idx)"
      by (rule take_or_drop)
    with i show "p ! j \<le> p ! i"
      unfolding K_def by (intro ord)
  qed
  have "(if i \<in> set (take k ?idx) then 0 else p ! i) = (if i \<in> K then p ! i else 0)"
    if "i \<in> set [0..<length p]" for i
  proof (cases "i \<in> set (take k ?idx)")
    case True
    then have "i \<notin> K"
      unfolding K_def by (intro take_not_drop) simp_all
    with True show ?thesis by simp
  next
    case False
    from that have "i \<in> set ?idx" by simp
    with False have "i \<in> K"
      unfolding K_def using take_or_drop [of i ?idx k] by blast
    with False show ?thesis by simp
  qed
  then show "zero_at (take k ?idx) p = map (\<lambda>i. if i \<in> K then p ! i else 0) [0..<length p]"
    unfolding zero_at_def by (intro map_cong refl)
qed

text \<open>
  Claim C9 says that after every call the caller's array has every entry outside the
  \<open>top_n\<close> largest set to zero. With \<open>top_n = 0\<close> the slice \<^verbatim>\<open>[:-0]\<close> is empty and the array
  is left as it was, although none of its entries is among the zero largest.
\<close>

theorem pick_top_n_mutates_counterexample:
  "fst (pick_top_n [1 / 2, 1 / 2] 2 0 0) = [1 / 2, 1 / 2] \<and>
   fst (pick_top_n [1 / 2, 1 / 2] 2 0 0) \<noteq> [0, 0]"
  by code_simp

text \<open>
  Claim C9, amended. \<^verbatim>\<open>pick_top_n\<close> writes into the caller's array: for \<open>top_n \<ge> 1\<close>, after
  the call there is a set \<open>K\<close> of \<open>min (top_n, length)\<close> indices, whose entries are at least
  as large as every other entry, such that the caller's array holds its old value at the
  indices in \<open>K\<close> and zero elsewhere. The array is not renormalised, and this holds whether
  the draw succeeds or raises. The other arguments are numbers, which a call cannot change.
\<close>

theorem pick_top_n_mutates:
  assumes "1 \<le> top_n"
  shows "\<exists>K. K \<subseteq> {0..<length preds} \<and>
           card K = min (nat top_n) (length preds) \<and>
           (\<forall>i\<in>K. \<forall>j\<in>{0..<length preds} - K. preds ! j \<le> preds ! i) \<and>
           fst (pick_top_n preds vocab_size top_n u) =
             map (\<lambda>i. if i \<in> K then preds ! i else 0) [0..<length preds]"
proof -
  let ?k = "length preds - nat top_n"
  let ?K = "set (drop ?k (argsort preds))"
  have "length preds - ?k = min (nat top_n) (length preds)"
    by arith
  then have c: "card ?K = min (nat top_n) (length preds)"
    using kept_indices(2) [where k = ?k and p = preds] by simp
  have "fst (pick_top_n preds vocab_size top_n u) = zero_below_top_n preds top_n"
  proof (cases "length preds = 1")
    case True
    with assms have "zero_below_top_n preds top_n = preds"
      by (simp add: zero_below_top_n_all)
    with True show ?thesis
      by (simp add: pick_top_n_one_entry)
  next
    case False
    then show ?thesis
      by (simp add: pick_top_n_def Let_def)
  qed
  then have f: "fst (pick_top_n preds vocab_size top_n u) =
           map (\<lambda>i. if i \<in> ?K then preds ! i else 0) [0..<length preds]"
    using assms kept_indices(4) [where k = ?k and p = preds]
    by (simp add: zero_below_top_n_pos)
  from kept_indices(1) [where k = ?k and p = preds] c kept_indices(3) [where k = ?k and p = preds] f
  show ?thesis by blast
qed

theorem pick_top_n_mutates_witness:
  "(1 :: int) \<le> 2 \<and>
   fst (pick_top_n [1 / 10, 1 / 20, 6 / 10, 1 / 20, 2 / 10] 5 2 0) =
     [0, 0, 6 / 10, 0, 2 / 10]"
proof -
  have t: "(1 :: int) \<le> 2" by simp
  have "fst (pick_top_n [1 / 10, 1 / 20, 6 / 10, 1 / 20, 2 / 10] 5 2 0) =
          [0, 0, 6 / 10, 0, 2 / 10]"
    by code_simp
  with pick_top_n_mutates [OF t, of "[1 / 10, 1 / 20, 6 / 10, 1 / 20, 2 / 10]" 5 0]
  show ?thesis by simp
qed

subsection \<open>The text that \<^verbatim>\<open>sample\<close> returns\<close>

lemma int_to_vocab_nth: "c < length vocab \<Longrightarrow> int_to_vocab vocab c = Some (vocab ! c)"
  using map_of_zip_nth [of "[0..<length vocab]" vocab c]
  by (simp add: int_to_vocab_def)

lemma int_to_vocab_Some: "int_to_vocab vocab c = Some ch \<Longrightarrow> ch \<in> set vocab"
proof -
  assume "int_to_vocab vocab c = Some ch"
  then have "(c, ch) \<in> set (zip [0..<length vocab] vocab)"
    unfolding int_to_vocab_def by (rule map_of_SomeD)
  then show ?thesis
    by (rule set_zip_rightD)
qed

lemma sampling_Inr:
  "sampling model vocab us n k c st samples = Inr out \<Longrightarrow>
   take (length samples) out = samples \<and> length out = length samples + n \<and>
   set (drop (length samples) out) \<subseteq> set vocab"
proof (induction n arbitrary: k c st samples)
  case 0
  then show ?case by simp
next
  case (Suc n)
  obtain preds st' where r: "run model c st = (preds, st')"
    by (cases "run model c st")
  from Suc.prems r obtain c' ch where
    "sampling model vocab us n (Suc k) c' st' (samples @ [ch]) = Inr out"
    and ch: "int_to_vocab vocab c' = Some ch"
    by (auto split: sum.splits option.splits)
  from Suc.IH [OF this(1)]
  have t: "take (Suc (length samples)) out = samples @ [ch]"
    and l: "length out = Suc (length samples) + n"
    and d: "set (drop (Suc (length samples)) out) \<subseteq> set vocab"
    by simp_all
  have "take (length samples) (take (Suc (length samples)) out) = samples"
    by (simp only: t) simp
  then have t': "take (length samples) out = samples"
    by (simp add: min_def)
  have "take (Suc (length samples)) out ! length samples = ch"
    by (simp only: t) simp
  then have "out ! length samples = ch"
    by simp
  moreover have "length samples < length out"
    using l by simp
  ultimately have "drop (length samples) out = ch # drop (Suc (length samples)) out"
    by (simp add: Cons_nth_drop_Suc [symmetric])
  with d int_to_vocab_Some [OF ch] have "set (drop (length samples) out) \<subseteq> set vocab"
    by simp
  with t' l show ?case by simp
qed

lemma sampling_ok:
  assumes m: "\<forall>x s. probabilities (length vocab) (fst (run model x s))"
    and v2: "2 \<le> length vocab"
    and u: "\<forall>k. 0 \<le> us k \<and> us k < 1"
  shows "\<exists>out. sampling model vocab us n k c st samples = Inr out"
proof (induction n arbitrary: k c st samples)
  case 0
  show ?case by simp
next
  case (Suc n)
  obtain preds st' where r: "run model c st = (preds, st')"
    by (cases "run model c st")
  from m have "probabilities (length vocab) (fst (run model c st))"
    by blast
  with r have pr: "probabilities (length vocab) preds"
    by simp
  have t: "(1 :: int) \<le> 5" by simp
  from u have u0: "0 \<le> us k" and u1: "us k < 1"
    by simp_all
  from pick_top_n_ok [OF pr v2 t u0 u1] obtain c' where
    p: "snd (pick_top_n preds (length vocab) 5 (us k)) = Inr c'" and c': "c' < length vocab"
    by blast
  from Suc [of "Suc k" c' st' "samples @ [vocab ! c']"] obtain out where
    "sampling model vocab us n (Suc k) c' st' (samples @ [vocab ! c']) = Inr out"
    by blast
  then have "sampling model vocab us (Suc n) k c st samples = Inr out"
    using r p int_to_vocab_nth [OF c'] by simp
  then show ?case by blast
qed

lemma priming_ok:
  assumes "set prime \<subseteq> set vocab"
  shows "\<exists>r. priming model vocab prime preds st = Inr r"
proof (cases "priming model vocab prime preds st")
  case (Inl e)
  then have "\<exists>c\<in>set prime. c \<notin> set vocab"
    using priming_fails_iff [of model vocab prime preds st] by blast
  with assms show ?thesis by blast
next
  case (Inr r)
  then show ?thesis by blast
qed

lemma priming_probabilities:
  assumes m: "\<forall>x s. probabilities v (fst (run model x s))"
  shows "priming model vocab cs preds st = Inr (Some p, st') \<Longrightarrow>
         (\<forall>p0. preds = Some p0 \<longrightarrow> probabilities v p0) \<Longrightarrow> probabilities v p"
proof (induction cs arbitrary: preds st)
  case Nil
  then show ?case by simp
next
  case (Cons c cs)
  from Cons.prems(1) obtain x where x: "vocab_to_int vocab c = Some x"
    by (auto split: option.splits)
  obtain preds' st'' where r: "run model x st = (preds', st'')"
    by (cases "run model x st")
  from m have "probabilities v (fst (run model x st))"
    by blast
  with r have pr: "probabilities v preds'"
    by simp
  from Cons.prems(1) x r have "priming model vocab cs (Some preds') st'' = Inr (Some p, st')"
    by simp
  from Cons.IH [OF this] pr show ?case
    by simp
qed

text \<open>
  Claim C1 says that \<open>sample\<close> returns \<open>prime\<close> followed by generated characters, of total
  length \<open>len (prime) + n_samples\<close>. The code draws one character from the last primed
  prediction before the loop of \<open>n_samples\<close> iterations starts: with \<open>prime = "a"\<close> and
  \<open>n_samples = 0\<close> it returns two characters.
\<close>

theorem sample_length_counterexample:
  "sample (const_rnn [1 / 2, 1 / 2]) ''ab'' zero_draws 0 ''a'' = Inr ''aa'' \<and>
   length ''aa'' \<noteq> length ''a'' + 0"
  by code_simp

text \<open>
  Claim C1, amended. Whenever \<open>sample\<close> returns a text, the text is \<open>prime\<close> followed by
  characters of the vocabulary, and has exactly \<open>len (prime) + n_samples + 1\<close> characters.
  It does return a text when \<open>prime\<close> is not empty and has only characters of the
  vocabulary, the vocabulary has at least two characters, the model predicts vectors of
  probabilities over the vocabulary, and the uniform samples are in \<open>[0, 1)\<close>. With a
  vocabulary of one character the first \<^verbatim>\<open>pick_top_n\<close> raises \<^verbatim>\<open>IndexError\<close> instead.
\<close>

theorem sample_length:
  "(sample model vocab us n_samples prime = Inr out \<longrightarrow>
      take (length prime) out = prime \<and> length out = length prime + n_samples + 1 \<and>
      set (drop (length prime) out) \<subseteq> set vocab) \<and>
   (prime \<noteq> [] \<and> set prime \<subseteq> set vocab \<and> 2 \<le> length vocab \<and>
    (\<forall>x s. probabilities (length vocab) (fst (run model x s))) \<and>
    (\<forall>k. 0 \<le> us k \<and> us k < 1) \<longrightarrow>
      (\<exists>out'. sample model vocab us n_samples prime = Inr out')) \<and>
   (prime \<noteq> [] \<and> set prime \<subseteq> set vocab \<and> length vocab = 1 \<and>
    (\<forall>x s. probabilities (length vocab) (fst (run model x s))) \<longrightarrow>
      sample model vocab us n_samples prime = Inl IndexError)"
proof (intro conjI)
  show "sample model vocab us n_samples prime = Inr out \<longrightarrow>
      take (length prime) out = prime \<and> length out = length prime + n_samples + 1 \<and>
      set (drop (length prime) out) \<subseteq> set vocab"
  proof (rule impI)
    assume s: "sample model vocab us n_samples prime = Inr out"
    then obtain c st ch where
      "sampling model vocab us n_samples 1 c st (prime @ [ch]) = Inr out"
      and ch: "int_to_vocab vocab c = Some ch"
      by (auto simp: sample_def split: sum.splits option.splits prod.splits)
    from sampling_Inr [OF this(1)]
    have t: "take (Suc (length prime)) out = prime @ [ch]"
      and l: "length out = Suc (length prime) + n_samples"
      and d: "set (drop (Suc (length prime)) out) \<subseteq> set vocab"
      by simp_all
    have "take (length prime) (take (Suc (length prime)) out) = prime"
      by (simp only: t) simp
    then have t': "take (length prime) out = prime"
      by (simp add: min_def)
    have "take (Suc (length prime)) out ! length prime = ch"
      by (simp only: t) simp
    then have "out ! length prime = ch"
      by simp
    moreover have "length prime < length out"
      using l by simp
    ultimately have "drop (length prime) out = ch # drop (Suc (length prime)) out"
      by (simp add: Cons_nth_drop_Suc [symmetric])
    with d int_to_vocab_Some [OF ch] have "set (drop (length prime) out) \<subseteq> set vocab"
      by simp
    with t' l show "take (length prime) out = prime \<and>
        length out = length prime + n_samples + 1 \<and>
        set (drop (length prime) out) \<subseteq> set vocab"
      by simp
  qed
next
  show "prime \<noteq> [] \<and> set prime \<subseteq> set vocab \<and> 2 \<le> length vocab \<and>
    (\<forall>x s. probabilities (length vocab) (fst (run model x s))) \<and>
    (\<forall>k. 0 \<le> us k \<and> us k < 1) \<longrightarrow>
      (\<exists>out'. sample model vocab us n_samples prime = Inr out')"
  proof (rule impI)
    assume a: "prime \<noteq> [] \<and> set prime \<subseteq> set vocab \<and> 2 \<le> length vocab \<and>
      (\<forall>x s. probabilities (length vocab) (fst (run model x s))) \<and>
      (\<forall>k. 0 \<le> us k \<and> us k < 1)"
    then have ne: "prime \<noteq> []" and sub: "set prime \<subseteq> set vocab"
      and v2: "2 \<le> length vocab"
      and m: "\<forall>x s. probabilities (length vocab) (fst (run model x s))"
      and u: "\<forall>k. 0 \<le> us k \<and> us k < 1"
      by simp_all
    from priming_ok [OF sub] obtain q st where
      pm: "priming model vocab prime None (initial_state model) = Inr (q, st)"
      by fastforce
    from priming_nonempty [OF ne pm] obtain preds where q: "q = Some preds"
      by blast
    from priming_probabilities [OF m, of vocab prime None "initial_state model" preds st] pm q
    have pr: "probabilities (length vocab) preds"
      by simp
    have t: "(1 :: int) \<le> 5" by simp
    from u have u0: "0 \<le> us 0" and u1: "us 0 < 1"
      by simp_all
    from pick_top_n_ok [OF pr v2 t u0 u1] obtain c where
      p: "snd (pick_top_n preds (length vocab) 5 (us 0)) = Inr c" and c: "c < length vocab"
      by blast
    from sampling_ok [OF m v2 u, of n_samples 1 c st "prime @ [vocab ! c]"] obtain out' where
      "sampling model vocab us n_samples 1 c st (prime @ [vocab ! c]) = Inr out'"
      by blast
    then have "sample model vocab us n_samples prime = Inr out'"
      using pm q p int_to_vocab_nth [OF c] by (simp add: sample_def)
    then show "\<exists>out'. sample model vocab us n_samples prime = Inr out'"
      by blast
  qed
next
  show "prime \<noteq> [] \<and> set prime \<subseteq> set vocab \<and> length vocab = 1 \<and>
    (\<forall>x s. probabilities (length vocab) (fst (run model x s))) \<longrightarrow>
      sample model vocab us n_samples prime = Inl IndexError"
  proof (rule impI)
    assume a: "prime \<noteq> [] \<and> set prime \<subseteq> set vocab \<and> length vocab = 1 \<and>
      (\<forall>x s. probabilities (length vocab) (fst (run model x s)))"
    then have ne: "prime \<noteq> []" and sub: "set prime \<subseteq> set vocab"
      and v1: "length vocab = 1"
      and m: "\<forall>x s. probabilities (length vocab) (fst (run model x s))"
      by blast+
    from priming_ok [OF sub] obtain q st where
      pm: "priming model vocab prime None (initial_state model) = Inr (q, st)"
      by fastforce
    from priming_nonempty [OF ne pm] obtain preds where q: "q = Some preds"
      by blast
    from priming_probabilities [OF m, of vocab prime None "initial_state model" preds st] pm q
    have "probabilities (length vocab) preds"
      by simp
    with v1 have "length preds = 1"
      by (simp add: probabilities_def)
    then have "snd (pick_top_n preds (length vocab) 5 (us 0)) = Inl IndexError"
      by (simp add: pick_top_n_one_entry)
    then show "sample model vocab us n_samples prime = Inl IndexError"
      using pm q by (simp add: sample_def)
  qed
qed

theorem sample_length_witness:
  "''ab'' \<noteq> [] \<and> set ''ab'' \<subseteq> set ''ab'' \<and> 2 \<le> length ''ab'' \<and>
   probabilities (length ''ab'') [1 / 2, 1 / 2] \<and>
   0 \<le> zero_draws 0 \<and> zero_draws 0 < 1 \<and>
   sample (const_rnn [1 / 2, 1 / 2]) ''ab'' zero_draws 2 ''ab'' = Inr ''abaaa'' \<and>
   take (length ''ab'') ''abaaa'' = ''ab'' \<and>
   length ''abaaa'' = length ''ab'' + 2 + 1 \<and>
   ''a'' \<noteq> [] \<and> set ''a'' \<subseteq> set ''a'' \<and> length ''a'' = 1 \<and>
   probabilities (length ''a'') [1] \<and>
   sample (const_rnn [1]) ''a'' zero_draws 1 ''a'' = Inl IndexError"
proof -
  have s: "sample (const_rnn [1 / 2, 1 / 2]) ''ab'' zero_draws 2 ''ab'' = Inr ''abaaa''"
    by code_simp
  have p: "probabilities (length ''ab'') [1 / 2, 1 / 2]"
    by code_simp
  have m: "\<forall>x s. probabilities (length ''ab'') (fst (run (const_rnn [1 / 2, 1 / 2]) x s))"
    using p by (simp add: const_rnn_def)
  have u: "\<forall>k. 0 \<le> zero_draws k \<and> zero_draws k < 1"
    by (simp add: zero_draws_def)
  have p1: "probabilities (length ''a'') [1]"
    by code_simp
  have m1: "\<forall>x s. probabilities (length ''a'') (fst (run (const_rnn [1]) x s))"
    using p1 by (simp add: const_rnn_def)
  from sample_length [of "const_rnn [1 / 2, 1 / 2]" "''ab''" zero_draws 2 "''ab''" "''abaaa''"]
    sample_length [of "const_rnn [1]" "''a''" zero_draws 1 "''a''" "[]"]
    s p m u p1 m1
  show ?thesis by simp
qed

subsection \<open>\<^verbatim>\<open>split_data\<close> on every exact multiple of the window\<close>

lemma np_stack_rows:
  assumes "arrays \<noteq> []" and "\<forall>r\<in>set arrays. length r = m"
  shows "np_stack arrays = Inr \<lparr>ncols = m, rows = arrays\<rparr>"
proof (cases arrays)
  case Nil
  with assms(1) show ?thesis by simp
next
  case (Cons a as)
  with assms(2) have "length a = m" and "\<forall>r\<in>set as. length r = m"
    by simp_all
  with Cons show ?thesis
    by (simp add: np_stack_def list_all_iff)
qed

lemma np_split_np_stack:
  assumes b: "0 < b" and d: "length ary mod b = 0"
  shows "\<exists>xs x2. np_split ary b = Inr xs \<and> np_stack xs = Inr x2"
proof -
  let ?m = "length ary div b"
  obtain xs where sp: "np_split ary b = Inr xs"
    using assms by (simp add: np_split_def)
  have lx: "length xs = b"
    using np_split_InrD(3) [OF sp] by simp
  have "xs \<noteq> []"
    using lx b by auto
  moreover have "\<forall>r\<in>set xs. length r = ?m"
  proof
    fix r assume "r \<in> set xs"
    then obtain i where i: "i < length xs" and r: "r = xs ! i"
      by (auto simp only: in_set_conv_nth)
    from i lx have "i < b" by simp
    from np_split_length_row [OF sp this] r show "length r = ?m"
      by simp
  qed
  ultimately have "np_stack xs = Inr \<lparr>ncols = ?m, rows = xs\<rparr>"
    by (rule np_stack_rows)
  with sp show ?thesis by blast
qed

text \<open>The failure of the example is not isolated: with at least two rows, every corpus
  whose length is a positive multiple of \<open>batch_size * num_steps\<close> ends in \<^verbatim>\<open>ValueError\<close>.\<close>

lemma split_data_exact_multiple:
  assumes b: "2 \<le> batch_size" and s: "1 \<le> num_steps" and n: "1 \<le> n"
    and len: "length chars = n * (batch_size * num_steps)"
  shows "split_data chars batch_size num_steps split_frac = Inl ValueError"
proof -
  let ?N = "n * (batch_size * num_steps)"
  have ss: "batch_size * num_steps \<noteq> 0"
    using b s by simp
  have nb: "length chars div (batch_size * num_steps) = n"
    using ss len by simp
  have x: "slice_upto (int ?N) chars = chars"
    using len by (simp only: slice_upto_nat) simp
  have y: "slice_range 1 (int (?N + 1)) chars = take ?N (drop 1 chars)"
    using slice_range_1 [of ?N chars] by simp
  have pos: "0 < ?N"
    using b s n by simp
  have ly: "length (take ?N (drop 1 chars)) = ?N - 1"
    using len by simp
  have d1: "batch_size dvd ?N"
    by simp
  have "\<not> batch_size dvd ?N - 1"
  proof
    assume "batch_size dvd ?N - 1"
    with d1 have "batch_size dvd ?N - (?N - 1)"
      by (rule dvd_diff_nat)
    moreover have "?N - (?N - 1) = 1"
      using pos by simp
    ultimately have "batch_size dvd 1"
      by (simp only:)
    with b show False by simp
  qed
  then have "length (take ?N (drop 1 chars)) mod batch_size \<noteq> 0"
    by (simp only: ly mod_eq_0_iff_dvd) simp
  then have ysp: "np_split (take ?N (drop 1 chars)) batch_size = Inl ValueError"
    using b by (simp add: np_split_def)
  have "length chars mod batch_size = 0"
    using len by simp
  with b obtain xs x2 where xsp: "np_split chars batch_size = Inr xs"
    and xst: "np_stack xs = Inr x2"
    using np_split_np_stack [of batch_size chars] by auto
  show ?thesis
    unfolding split_data_def Let_def nb
    using ss by (simp only: x y xsp xst ysp if_False sum.case)
qed

end
